theory Spec2Isabelle
  imports Complex_Main "HOL-Library.Multiset" "HOL-Library.Log_Nat"
begin

section \<open>The coefficient dictionary\<close>

text \<open>
  Every notebook builds its QUBO in a Python \<^verbatim>\<open>defaultdict(int)\<close> named \<^verbatim>\<open>Q\<close> whose keys
  are pairs of variable labels. A Python dictionary keeps its keys in insertion order, so it
  is modelled as an association list: a new key goes to the end, an existing key keeps its
  place. Coefficients are Python integers (unbounded), hence \<^typ>\<open>int\<close>.
\<close>

type_synonym key = "nat \<times> nat"
type_synonym qubo = "(key \<times> int) list"
type_synonym assignment = "nat \<Rightarrow> int"

text \<open>\<^verbatim>\<open>Q[k] = v\<close>: overwrite the value of an existing key, or append a new entry.\<close>

fun setitem :: "('k \<times> 'v) list \<Rightarrow> 'k \<Rightarrow> 'v \<Rightarrow> ('k \<times> 'v) list" where
  "setitem [] k v = [(k, v)]"
| "setitem ((k', v') # Q) k v = (if k' = k then (k, v) # Q else (k', v') # setitem Q k v)"

text \<open>Reading \<^verbatim>\<open>Q[k]\<close> from a \<^verbatim>\<open>defaultdict(int)\<close>: a missing key reads as 0.\<close>

fun getitem :: "('k \<times> int) list \<Rightarrow> 'k \<Rightarrow> int" where
  "getitem [] k = 0"
| "getitem ((k', v') # Q) k = (if k' = k then v' else getitem Q k)"

text \<open>\<^verbatim>\<open>Q[k] += c\<close> on a \<^verbatim>\<open>defaultdict(int)\<close>: read (0 when missing), add, store.\<close>

definition iadd :: "('k \<times> int) list \<Rightarrow> 'k \<Rightarrow> int \<Rightarrow> ('k \<times> int) list" where
  "iadd Q k c = setitem Q k (getitem Q k + c)"

definition keys :: "('k \<times> 'v) list \<Rightarrow> 'k list" where
  "keys Q = map fst Q"

text \<open>
  The energy the sampler (\<^verbatim>\<open>sample_qubo\<close>) gives an assignment \<open>x\<close> under the dictionary
  \<open>Q\<close>: the sum over the entries \<open>((i, j), c)\<close> of \<open>c * x i * x j\<close>.
\<close>

definition energy :: "qubo \<Rightarrow> assignment \<Rightarrow> int" where
  "energy Q x = (\<Sum>((i, j), c) \<leftarrow> Q. c * x i * x j)"

text \<open>A sample gives every variable the value 0 or 1.\<close>

definition binary_on :: "nat list \<Rightarrow> assignment \<Rightarrow> bool" where
  "binary_on vs x = (\<forall>v \<in> set vs. x v = 0 \<or> x v = 1)"

text \<open>\<open>x\<close> has the least energy among all binary assignments of the variables \<open>vs\<close>.\<close>

definition minimises :: "qubo \<Rightarrow> nat list \<Rightarrow> assignment \<Rightarrow> bool" where
  "minimises Q vs x = (binary_on vs x \<and> (\<forall>y. binary_on vs y \<longrightarrow> energy Q x \<le> energy Q y))"

section \<open>The toy problem (toy-problem.ipynb)\<close>

text \<open>
  \<^verbatim>\<open>Q[(1,1)]=1-A; Q[(2,2)]=1-A; Q[(3,3)]=1; Q[(1,2)]=2*A\<close>, with the penalty weight
  \<^verbatim>\<open>A\<close> (4 in the notebook) as a parameter. Variables 1, 2, 3 are v, w, t.
\<close>

definition toy_Q :: "int \<Rightarrow> qubo" where
  "toy_Q A =
     setitem (setitem (setitem (setitem [] (1, 1) (1 - A)) (2, 2) (1 - A)) (3, 3) 1) (1, 2) (2 * A)"

text \<open>The sample the notebook prints: \<^verbatim>\<open>{1: 1, 2: 0, 3: 0}\<close>.\<close>

definition toy_result :: assignment where
  "toy_result v = (if v = 1 then 1 else 0)"

section \<open>The introductory dictionary (EX0-Getting\_started.ipynb)\<close>

text \<open>The eleven plain assignments \<^verbatim>\<open>Q[(1, 1)] = -2\<close>, ..., \<^verbatim>\<open>Q[(4, 5)] = 2\<close>, in the notebook's order.\<close>

definition getting_started_Q :: qubo where
  "getting_started_Q =
     setitem (setitem (setitem (setitem (setitem (setitem (setitem (setitem (setitem (setitem
       (setitem [] (1, 1) (- 2)) (2, 2) (- 2)) (1, 2) 2) (3, 3) (- 3)) (1, 3) 2) (4, 4) (- 3))
       (2, 4) 2) (3, 4) 2) (5, 5) (- 2)) (3, 5) 2) (4, 5) 2"

section \<open>Maximum cut (EX2-solution.ipynb)\<close>

text \<open>
  \<^verbatim>\<open>for i, j in G.edges: Q[(i,i)] += -1; Q[(j,j)] += -1; Q[(i,j)] += 2\<close>.
  The graph library hands over \<^verbatim>\<open>G.edges\<close> as a sequence of pairs; it is a parameter here.
\<close>

fun maxcut_loop :: "qubo \<Rightarrow> (nat \<times> nat) list \<Rightarrow> qubo" where
  "maxcut_loop Q [] = Q"
| "maxcut_loop Q ((i, j) # es) =
     maxcut_loop (iadd (iadd (iadd Q (i, i) (- 1)) (j, j) (- 1)) (i, j) 2) es"

definition maxcut_Q :: "(nat \<times> nat) list \<Rightarrow> qubo" where
  "maxcut_Q edges = maxcut_loop [] edges"

text \<open>The notebook's graph: \<^verbatim>\<open>G.add_edges_from([(1,2),(1,3),(2,4),(3,4),(3,5),(4,5)])\<close>.\<close>

definition maxcut_edges :: "(nat \<times> nat) list" where
  "maxcut_edges = [(1, 2), (1, 3), (2, 4), (3, 4), (3, 5), (4, 5)]"

text \<open>\<^verbatim>\<open>cut_edges = [(u, v) for u, v in G.edges if lut[u] != lut[v]]\<close>.\<close>

definition cut_edges :: "(nat \<times> nat) list \<Rightarrow> assignment \<Rightarrow> (nat \<times> nat) list" where
  "cut_edges edges lut = filter (\<lambda>(u, v). lut u \<noteq> lut v) edges"

text \<open>The first row of the notebook's result table: Set 0 = [1, 4], Set 1 = [2, 3, 5].\<close>

definition maxcut_result :: assignment where
  "maxcut_result v = (if v = 2 \<or> v = 3 \<or> v = 5 then 1 else 0)"

section \<open>Graph partitioning (EX2-solution.ipynb)\<close>

text \<open>\<^verbatim>\<open>itertools.combinations(xs, 2)\<close>: the pairs of positions in increasing order.\<close>

fun combinations2 :: "'a list \<Rightarrow> ('a \<times> 'a) list" where
  "combinations2 [] = []"
| "combinations2 (x # xs) = map (Pair x) xs @ combinations2 xs"

text \<open>\<^verbatim>\<open>for u, v in G.edges: Q[(u,u)] += 1; Q[(v,v)] += 1; Q[(u,v)] += -2\<close>\<close>

fun partition_objective :: "qubo \<Rightarrow> (nat \<times> nat) list \<Rightarrow> qubo" where
  "partition_objective Q [] = Q"
| "partition_objective Q ((u, v) # es) =
     partition_objective (iadd (iadd (iadd Q (u, u) 1) (v, v) 1) (u, v) (- 2)) es"

text \<open>\<^verbatim>\<open>for i in G.nodes: Q[(i,i)] += gamma*(1-len(G.nodes))\<close>, with \<open>n = len(G.nodes)\<close>.\<close>

fun partition_linear :: "qubo \<Rightarrow> int \<Rightarrow> nat \<Rightarrow> nat list \<Rightarrow> qubo" where
  "partition_linear Q gamma n [] = Q"
| "partition_linear Q gamma n (i # ns) =
     partition_linear (iadd Q (i, i) (gamma * (1 - int n))) gamma n ns"

text \<open>\<^verbatim>\<open>for i, j in combinations(G.nodes, 2): Q[(i,j)] += 2*gamma\<close>\<close>

fun partition_quadratic :: "qubo \<Rightarrow> int \<Rightarrow> (nat \<times> nat) list \<Rightarrow> qubo" where
  "partition_quadratic Q gamma [] = Q"
| "partition_quadratic Q gamma ((i, j) # ps) =
     partition_quadratic (iadd Q (i, j) (2 * gamma)) gamma ps"

text \<open>The whole cell: the three loops in sequence on an empty dictionary.\<close>

definition partition_Q :: "nat list \<Rightarrow> (nat \<times> nat) list \<Rightarrow> int \<Rightarrow> qubo" where
  "partition_Q nodes edges gamma =
     partition_quadratic
       (partition_linear (partition_objective [] edges) gamma (length nodes) nodes)
       gamma (combinations2 nodes)"

text \<open>
  The constraint-penalty portion of the dictionary: what the two \<open>gamma\<close> loops contribute,
  that is the same two loops on an empty dictionary.
\<close>

definition partition_penalty :: "nat list \<Rightarrow> int \<Rightarrow> qubo" where
  "partition_penalty nodes gamma =
     partition_quadratic (partition_linear [] gamma (length nodes) nodes)
       gamma (combinations2 nodes)"

text \<open>The graph of the notebook, \<^verbatim>\<open>nx.gnp_random_graph(n, p)\<close>, has the nodes \<open>0, ..., n - 1\<close>
  and reports each edge once, smaller endpoint first.\<close>

definition gnp_graph :: "nat \<Rightarrow> (nat \<times> nat) list \<Rightarrow> bool" where
  "gnp_graph n edges = (distinct edges \<and> list_all (\<lambda>(u, v). u < v \<and> v < n) edges)"

text \<open>The number of edges at node \<open>i\<close>.\<close>

definition degree :: "(nat \<times> nat) list \<Rightarrow> nat \<Rightarrow> nat" where
  "degree edges i = length (filter (\<lambda>(u, v). u = i \<or> v = i) edges)"

text \<open>\<^verbatim>\<open>sum(x)\<close> over the nodes, and the size of the cut by the expression the notebooks use,
  \<^verbatim>\<open>x_i + x_j - 2*x_i*x_j\<close> summed over the edges.\<close>

definition sum_nodes :: "nat list \<Rightarrow> assignment \<Rightarrow> int" where
  "sum_nodes nodes x = (\<Sum>i \<leftarrow> nodes. x i)"

definition cut_size :: "(nat \<times> nat) list \<Rightarrow> assignment \<Rightarrow> int" where
  "cut_size edges x = (\<Sum>(u, v) \<leftarrow> edges. x u + x v - 2 * x u * x v)"

text \<open>
  Every loop of the encoders adds a sequence of terms, a key with a contribution, by
  \<^verbatim>\<open>Q[key] += contribution\<close>. \<open>accumulate\<close> adds any such sequence; \<open>partition_terms\<close> is the
  sequence the three loops of the graph-partition cell add, in their order.
\<close>

fun accumulate :: "qubo \<Rightarrow> (key \<times> int) list \<Rightarrow> qubo" where
  "accumulate Q [] = Q"
| "accumulate Q ((k, c) # ts) = accumulate (iadd Q k c) ts"

definition partition_terms :: "nat list \<Rightarrow> (nat \<times> nat) list \<Rightarrow> int \<Rightarrow> (key \<times> int) list" where
  "partition_terms nodes edges gamma =
     concat (map (\<lambda>(u, v). [((u, u), 1), ((v, v), 1), ((u, v), - 2)]) edges)
     @ map (\<lambda>i. ((i, i), gamma * (1 - int (length nodes)))) nodes
     @ map (\<lambda>p. (p, 2 * gamma)) (combinations2 nodes)"

text \<open>A four-node graph of that kind.\<close>

definition example_edges :: "(nat \<times> nat) list" where
  "example_edges = [(0, 1), (1, 3)]"

text \<open>The assignment that puts the first half of the nodes in subset 1.\<close>

definition first_half :: "nat list \<Rightarrow> assignment" where
  "first_half nodes i = (if i \<in> set (take (length nodes div 2) nodes) then 1 else 0)"

text \<open>The all-zero assignment (every node in subset 0).\<close>

definition all_zero :: assignment where
  "all_zero i = 0"

text \<open>The endpoints of the edges, with repetitions.\<close>

definition endpoints :: "(nat \<times> nat) list \<Rightarrow> nat list" where
  "endpoints edges = concat (map (\<lambda>(u, v). [u, v]) edges)"

subsection \<open>Reading the best sample\<close>

datatype py_error = ValueError string | IndexError | KeyError nat

datatype partition_report = Valid_partition int | Invalid_partition

text \<open>
  The sample, \<^verbatim>\<open>response.record.sample[0]\<close>, is an array of 8-bit signed integers. A Python
  integer that meets such an entry in an operation takes the entry's type, so every sum and
  product below is an 8-bit one: it wraps around past 127. \<open>int8\<close> is that wrap-around on the
  mathematical value.
\<close>

definition int8 :: "int \<Rightarrow> int" where
  "int8 v = (v + 128) mod 256 - 128"

text \<open>\<^verbatim>\<open>sum(sample)\<close>: the entries added one by one onto the Python integer 0.\<close>

fun sum_int8 :: "int \<Rightarrow> int list \<Rightarrow> int" where
  "sum_int8 acc [] = acc"
| "sum_int8 acc (e # es) = sum_int8 (int8 (acc + e)) es"

text \<open>
  \<^verbatim>\<open>num_cut_edges = 0; for u, v in G.edges: num_cut_edges += sample[u] + sample[v] - 2*sample[u]*sample[v]\<close>.
  An index past the end of the array raises \<^verbatim>\<open>IndexError\<close>.
\<close>

fun num_cut_edges :: "int \<Rightarrow> (nat \<times> nat) list \<Rightarrow> int list \<Rightarrow> py_error + int" where
  "num_cut_edges acc [] sample = Inr acc"
| "num_cut_edges acc ((u, v) # es) sample =
     (if u < length sample \<and> v < length sample
      then num_cut_edges
             (int8 (acc + int8 (int8 (sample ! u + sample ! v)
                                 - int8 (int8 (2 * sample ! u) * sample ! v))))
             es sample
      else Inl IndexError)"

text \<open>
  \<^verbatim>\<open>if sum(sample) in [math.floor(len(G.nodes)/2), math.ceil(len(G.nodes)/2)]: ... print("Valid partition found with", num_cut_edges, "cut edges.") else: print("Invalid partition.")\<close>
  The quotient \<^verbatim>\<open>len(G.nodes)/2\<close> is a float, exact for every node count a graph can have,
  so it is the real quotient here; the comparison with the 8-bit sum is by value.
\<close>

definition partition_check :: "nat list \<Rightarrow> (nat \<times> nat) list \<Rightarrow> int list \<Rightarrow> py_error + partition_report" where
  "partition_check nodes edges sample =
     (if sum_int8 0 sample = \<lfloor>real (length nodes) / 2\<rfloor>
         \<or> sum_int8 0 sample = \<lceil>real (length nodes) / 2\<rceil>
      then (case num_cut_edges 0 edges sample of
              Inl e \<Rightarrow> Inl e
            | Inr c \<Rightarrow> Inr (Valid_partition c))
      else Inr Invalid_partition)"

text \<open>The number of variables a sample sets to 1, and the sample as an assignment.\<close>

definition count_ones :: "int list \<Rightarrow> nat" where
  "count_ones sample = length (filter (\<lambda>v. v = 1) sample)"

definition binary_sample :: "int list \<Rightarrow> bool" where
  "binary_sample sample = list_all (\<lambda>v. v = 0 \<or> v = 1) sample"

definition of_sample :: "int list \<Rightarrow> assignment" where
  "of_sample sample u = sample ! u"

text \<open>The sample of \<open>n\<close> entries whose first \<open>k\<close> are 1 and whose others are 0.\<close>

definition ones_then_zeros :: "nat \<Rightarrow> nat \<Rightarrow> int list" where
  "ones_then_zeros k n = replicate k 1 @ replicate (n - k) 0"

text \<open>The complete bipartite graph between the nodes 0..11 and the nodes 12..23: 144 edges.\<close>

definition k12_edges :: "(nat \<times> nat) list" where
  "k12_edges = concat (map (\<lambda>i. map (Pair i) [12..<24]) [0..<12])"

section \<open>Knapsack (EX2-solution.ipynb, \<^verbatim>\<open>knapsack_dwave\<close>)\<close>

text \<open>
  The objective and the capacity constraint are linear models: a bias per variable, kept in
  the order the variables were added. The model stores its biases as 64-bit floats. Only
  whole numbers are ever stored, so a bias is written as the whole number it is;
  \<open>float64\<close> rounds a whole number to the nearest one a 64-bit float can hold (ties to the
  even mantissa): up to \<open>2^53\<close> in size every whole number is held exactly, from there on
  only the multiples of the spacing are. (Sizes of \<open>2^1024\<close> and more, where a float
  overflows, are not reached by sums of 64-bit entries and are not modelled.)
\<close>

type_synonym linear_model = "(nat \<times> int) list"

definition float64 :: "int \<Rightarrow> int" where
  "float64 v =
     (let a = \<bar>v\<bar> in
      if a < 2 ^ 53 then v
      else
        (let s = 2 ^ nat (bitlen a - 53); q = a div s; r = a mod s;
             m = (if 2 * r < s \<or> (2 * r = s \<and> even q) then q else q + 1)
         in sgn v * (m * s)))"

text \<open>
  \<^verbatim>\<open>add_variable\<close> leaves a variable that is already there as it is and adds a new one with
  bias 0; \<^verbatim>\<open>set_linear\<close> stores the bias, as a float.
\<close>

definition add_variable :: "linear_model \<Rightarrow> nat \<Rightarrow> linear_model" where
  "add_variable m v = iadd m v 0"

definition set_linear :: "linear_model \<Rightarrow> nat \<Rightarrow> int \<Rightarrow> linear_model" where
  "set_linear m v b = setitem m v (float64 b)"

text \<open>The entries of \<^verbatim>\<open>values\<close> are 64-bit signed integers; \<^verbatim>\<open>-values[i]\<close> negates in 64 bits.\<close>

definition int64_neg :: "int \<Rightarrow> int" where
  "int64_neg v = (- v + 2 ^ 63) mod 2 ^ 64 - 2 ^ 63"

text \<open>The constrained model: objective, and the constraint \<open>constraint \<le> rhs\<close>
  (\<^verbatim>\<open>sense="<="\<close>, label \<^verbatim>\<open>"capacity"\<close>).\<close>

record cqm =
  objective :: linear_model
  constraint :: linear_model
  rhs :: int

text \<open>
  \<^verbatim>\<open>for i in range(len(values)): obj.add_variable(i); obj.set_linear(i, -values[i]); constraint.add_variable("BINARY", i); constraint.set_linear(i, weights[i])\<close>.
  \<^verbatim>\<open>values\<close> and \<^verbatim>\<open>weights\<close> are series indexed from 0; a missing label raises \<^verbatim>\<open>KeyError\<close>.
\<close>

fun knapsack_loop ::
  "linear_model \<Rightarrow> linear_model \<Rightarrow> int list \<Rightarrow> int list \<Rightarrow> nat list
    \<Rightarrow> py_error + (linear_model \<times> linear_model)" where
  "knapsack_loop obj con values weights [] = Inr (obj, con)"
| "knapsack_loop obj con values weights (i # ns) =
     (if i < length values \<and> i < length weights
      then knapsack_loop (set_linear (add_variable obj i) i (int64_neg (values ! i)))
             (set_linear (add_variable con i) i (weights ! i)) values weights ns
      else Inl (KeyError i))"

definition knapsack_cqm :: "int list \<Rightarrow> int list \<Rightarrow> int \<Rightarrow> py_error + cqm" where
  "knapsack_cqm values weights max_weight =
     (case knapsack_loop [] [] values weights [0..<length values] of
        Inl e \<Rightarrow> Inl e
      | Inr (obj, con) \<Rightarrow> Inr \<lparr>objective = obj, constraint = con, rhs = max_weight\<rparr>)"

text \<open>
  The value of a linear model at an assignment: the terms \<open>bias * x\<close>, multiplied and added
  up in 64-bit floats, one after the other. Then the 0/1 indicator of a set of items.
\<close>

fun float_sum :: "int \<Rightarrow> linear_model \<Rightarrow> assignment \<Rightarrow> int" where
  "float_sum acc [] x = acc"
| "float_sum acc ((v, b) # m) x = float_sum (float64 (acc + float64 (b * x v))) m x"

definition linear_value :: "linear_model \<Rightarrow> assignment \<Rightarrow> int" where
  "linear_value m x = float_sum 0 m x"

definition indicator_vector :: "nat set \<Rightarrow> assignment" where
  "indicator_vector S i = (if i \<in> S then 1 else 0)"

subsection \<open>Reading the sample set\<close>

text \<open>A row of the sample set: the sample (variable, value), its energy, and the
  feasibility flag the constraint-aware sampler reports.\<close>

record sample_row =
  row_sample :: "(nat \<times> int) list"
  row_energy :: int
  is_feasible :: bool

text \<open>\<^verbatim>\<open>sampleset.first\<close>: the row of lowest energy (the earliest one among equals);
  on an empty sample set it raises \<^verbatim>\<open>ValueError\<close>.\<close>

fun lowest :: "sample_row \<Rightarrow> sample_row list \<Rightarrow> sample_row" where
  "lowest b [] = b"
| "lowest b (r # rs) = lowest (if row_energy r < row_energy b then r else b) rs"

fun first :: "sample_row list \<Rightarrow> py_error + sample_row" where
  "first [] = Inl (ValueError ''SampleSet is empty'')"
| "first (r # rs) = Inr (lowest r rs)"

text \<open>\<^verbatim>\<open>series.loc[labels]\<close>: the entries at the labels; a missing label raises \<^verbatim>\<open>KeyError\<close>.\<close>

fun loc :: "int list \<Rightarrow> nat list \<Rightarrow> py_error + int list" where
  "loc xs [] = Inr []"
| "loc xs (k # ks) =
     (if k < length xs
      then (case loc xs ks of Inl e \<Rightarrow> Inl e | Inr vs \<Rightarrow> Inr (xs ! k # vs))
      else Inl (KeyError k))"

text \<open>\<^verbatim>\<open>[key for key, val in best.sample.items() if val == 1.0]\<close>\<close>

definition selected :: "sample_row \<Rightarrow> nat list" where
  "selected best = map fst (filter (\<lambda>(key, val). val = 1) (row_sample best))"

text \<open>What \<^verbatim>\<open>knapsack_dwave\<close> returns, without the two timings it copies from the sampler.\<close>

record knapsack_result =
  total_value :: int
  total_weight :: int
  selected_items :: "nat list"
  best_solution_energy :: int

text \<open>
  \<^verbatim>\<open>feasible_sampleset = sampleset.filter(lambda row: row.is_feasible)\<close>,
  \<^verbatim>\<open>if not len(feasible_sampleset): raise ValueError("No feasible solution found")\<close>,
  \<^verbatim>\<open>best = feasible_sampleset.first\<close>, then the selected items and their totals.
\<close>

definition knapsack_parse :: "int list \<Rightarrow> int list \<Rightarrow> sample_row list \<Rightarrow> py_error + knapsack_result" where
  "knapsack_parse values weights sampleset =
     (let feasible_sampleset = filter is_feasible sampleset in
      if length feasible_sampleset = 0 then Inl (ValueError ''No feasible solution found'')
      else
        (case first feasible_sampleset of
           Inl e \<Rightarrow> Inl e
         | Inr best \<Rightarrow>
            (case loc weights (selected best) of
               Inl e \<Rightarrow> Inl e
             | Inr ws \<Rightarrow>
                (case loc values (selected best) of
                   Inl e \<Rightarrow> Inl e
                 | Inr vs \<Rightarrow>
                     Inr \<lparr>total_value = sum_list vs, total_weight = sum_list ws,
                          selected_items = selected best,
                          best_solution_energy = row_energy best\<rparr>))))"

text \<open>The whole function; the sampler (\<^verbatim>\<open>LeapHybridCQMSampler().sample_cqm\<close>) is a parameter
  and is called once.\<close>

definition knapsack_dwave ::
  "(cqm \<Rightarrow> sample_row list) \<Rightarrow> int list \<Rightarrow> int list \<Rightarrow> int \<Rightarrow> py_error + knapsack_result" where
  "knapsack_dwave sample_cqm values weights max_weight =
     (case knapsack_cqm values weights max_weight of
        Inl e \<Rightarrow> Inl e
      | Inr model \<Rightarrow> knapsack_parse values weights (sample_cqm model))"

text \<open>A sample set whose rows only name items that exist.\<close>

definition rows_in_range :: "nat \<Rightarrow> sample_row list \<Rightarrow> bool" where
  "rows_in_range n sampleset = list_all (\<lambda>r. list_all (\<lambda>(key, val). key < n) (row_sample r)) sampleset"

text \<open>A small instance: three items, and a sample set of three rows.\<close>

definition example_values :: "int list" where
  "example_values = [10, 7, 4]"

text \<open>A single item worth \<open>2^53 + 1\<close>.\<close>

definition large_values :: "int list" where
  "large_values = [9007199254740993]"

definition example_weights :: "int list" where
  "example_weights = [5, 4, 3]"

definition example_sampleset :: "sample_row list" where
  "example_sampleset =
     [\<lparr>row_sample = [(0, 1), (1, 1), (2, 1)], row_energy = - 21, is_feasible = False\<rparr>,
      \<lparr>row_sample = [(0, 0), (1, 1), (2, 1)], row_energy = - 11, is_feasible = True\<rparr>,
      \<lparr>row_sample = [(0, 1), (1, 0), (2, 1)], row_energy = - 14, is_feasible = True\<rparr>]"

definition infeasible_sampleset :: "sample_row list" where
  "infeasible_sampleset =
     [\<lparr>row_sample = [(0, 1), (1, 1), (2, 1)], row_energy = - 21, is_feasible = False\<rparr>]"

section \<open>Properties of the dictionary\<close>

lemma getitem_setitem: "getitem (setitem Q k v) k' = (if k' = k then v else getitem Q k')"
  by (induction Q) auto

lemma getitem_iadd: "getitem (iadd Q k c) k' = getitem Q k' + (if k' = k then c else 0)"
  by (simp add: iadd_def getitem_setitem)

lemma getitem_absent: "k \<notin> set (keys Q) \<Longrightarrow> getitem Q k = 0"
  by (induction Q) (auto simp: keys_def)

lemma keys_setitem:
  "keys (setitem Q k v) = (if k \<in> set (keys Q) then keys Q else keys Q @ [k])"
  by (induction Q) (force simp: keys_def)+

lemma keys_iadd: "keys (iadd Q k c) = (if k \<in> set (keys Q) then keys Q else keys Q @ [k])"
  by (simp add: iadd_def keys_setitem)

lemma set_keys_iadd: "set (keys (iadd Q k c)) = insert k (set (keys Q))"
  by (auto simp: keys_iadd)

lemma distinct_iadd: "distinct (keys Q) \<Longrightarrow> distinct (keys (iadd Q k c))"
  by (simp add: keys_iadd)

lemma map_of_getitem:
  "map_of Q k = (if k \<in> set (keys Q) then Some (getitem Q k) else None)"
  by (induction Q) (auto simp: keys_def)

lemma energy_setitem:
  "energy (setitem Q k v) x = energy Q x + (v - getitem Q k) * x (fst k) * x (snd k)"
proof (cases k)
  case (Pair i j)
  show ?thesis
    unfolding Pair by (induction Q) (auto simp: energy_def algebra_simps)
qed

lemma energy_iadd: "energy (iadd Q k c) x = energy Q x + c * x (fst k) * x (snd k)"
  by (simp add: iadd_def energy_setitem)

lemma energy_Nil: "energy [] x = 0"
  by (simp add: energy_def)


lemma energy_maxcut_loop:
  "energy (maxcut_loop Q es) x =
     energy Q x - (\<Sum>(u, v) \<leftarrow> es. x u * x u + x v * x v - 2 * x u * x v)"
  by (induction Q es rule: maxcut_loop.induct) (simp_all add: energy_iadd algebra_simps)

lemma energy_partition_linear:
  "energy (partition_linear Q gamma n ns) x =
     energy Q x + gamma * (1 - int n) * (\<Sum>i \<leftarrow> ns. x i * x i)"
  by (induction Q gamma n ns rule: partition_linear.induct) (simp_all add: energy_iadd algebra_simps)

lemma energy_partition_quadratic:
  "energy (partition_quadratic Q gamma ps) x =
     energy Q x + 2 * gamma * (\<Sum>(i, j) \<leftarrow> ps. x i * x j)"
  by (induction Q gamma ps rule: partition_quadratic.induct) (simp_all add: energy_iadd algebra_simps)

lemma sum_list_Pair:
  "sum_list (map ((\<lambda>(i, j). x i * x j) \<circ> Pair a) xs) = (x::nat \<Rightarrow> int) a * sum_list (map x xs)"
  by (induction xs) (simp_all add: algebra_simps)

lemma combinations2_square:
  "2 * (\<Sum>(i, j) \<leftarrow> combinations2 xs. (x::nat \<Rightarrow> int) i * x j) =
     (\<Sum>i \<leftarrow> xs. x i) * (\<Sum>i \<leftarrow> xs. x i) - (\<Sum>i \<leftarrow> xs. x i * x i)"
proof (induction xs)
  case Nil
  show ?case by simp
next
  case (Cons a xs)
  have "2 * (\<Sum>(i, j) \<leftarrow> combinations2 (a # xs). x i * x j) =
      2 * (x a * (\<Sum>i \<leftarrow> xs. x i)) + 2 * (\<Sum>(i, j) \<leftarrow> combinations2 xs. x i * x j)"
    by (simp add: sum_list_Pair)
  also have "\<dots> = 2 * (x a * (\<Sum>i \<leftarrow> xs. x i)) +
      ((\<Sum>i \<leftarrow> xs. x i) * (\<Sum>i \<leftarrow> xs. x i) - (\<Sum>i \<leftarrow> xs. x i * x i))"
    by (simp only: Cons.IH)
  also have "\<dots> = (\<Sum>i \<leftarrow> a # xs. x i) * (\<Sum>i \<leftarrow> a # xs. x i) - (\<Sum>i \<leftarrow> a # xs. x i * x i)"
    by (simp add: algebra_simps)
  finally show ?case .
qed

lemma binary_square: "binary_on vs x \<Longrightarrow> (\<Sum>i \<leftarrow> vs. x i * x i) = sum_nodes vs x"
  unfolding sum_nodes_def binary_on_def
  by (induction vs) auto

lemma energy_partition_penalty:
  assumes "binary_on nodes x"
  shows "energy (partition_penalty nodes gamma) x =
     gamma * (sum_nodes nodes x * sum_nodes nodes x - int (length nodes) * sum_nodes nodes x)"
proof -
  have "energy (partition_penalty nodes gamma) x =
      gamma * (1 - int (length nodes)) * (\<Sum>i \<leftarrow> nodes. x i * x i)
      + gamma * (2 * (\<Sum>(i, j) \<leftarrow> combinations2 nodes. x i * x j))"
    by (simp add: partition_penalty_def energy_partition_quadratic energy_partition_linear energy_Nil)
  also have "\<dots> = gamma * (1 - int (length nodes)) * sum_nodes nodes x
      + gamma * (sum_nodes nodes x * sum_nodes nodes x - sum_nodes nodes x)"
    unfolding combinations2_square binary_square[OF assms]
    by (simp add: sum_nodes_def)
  also have "\<dots> = gamma * (sum_nodes nodes x * sum_nodes nodes x - int (length nodes) * sum_nodes nodes x)"
    by (simp add: algebra_simps)
  finally show ?thesis .
qed


section \<open>The toy problem: the penalty weight is large enough\<close>

lemma toy_Q_4: "toy_Q 4 = [((1, 1), -3), ((2, 2), -3), ((3, 3), 1), ((1, 2), 8)]"
  by (simp add: toy_Q_def)

lemma toy_energy: "energy (toy_Q 4) x = - 3 * x 1 * x 1 - 3 * x 2 * x 2 + x 3 * x 3 + 8 * x 1 * x 2"
  by (simp add: toy_Q_4 energy_def)

lemma toy_cases:
  assumes "binary_on [1, 2, 3] x"
  shows "energy (toy_Q 4) x \<ge> -3"
    and "energy (toy_Q 4) x = -3 \<longleftrightarrow> x 1 + x 2 = 1 \<and> x 3 = 0"
proof -
  from assms have b: "x 1 = 0 \<or> x 1 = 1" "x 2 = 0 \<or> x 2 = 1" "x 3 = 0 \<or> x 3 = 1"
    by (simp_all add: binary_on_def)
  from b show "energy (toy_Q 4) x \<ge> -3"
    by (auto simp: toy_energy)
  from b show "energy (toy_Q 4) x = -3 \<longleftrightarrow> x 1 + x 2 = 1 \<and> x 3 = 0"
    by (auto simp: toy_energy)
qed

lemma toy_result_binary: "binary_on [1, 2, 3] toy_result"
  by (simp add: binary_on_def toy_result_def)

lemma toy_result_energy: "energy (toy_Q 4) toy_result = -3"
  by (simp add: toy_energy toy_result_def)

text \<open>
  C9. With \<^verbatim>\<open>A = 4\<close> the toy dictionary is \<^verbatim>\<open>{(1,1): -3, (2,2): -3, (3,3): 1, (1,2): 8}\<close>;
  over the binary assignments of v, w, t (variables 1, 2, 3) the least energy is -3, it is
  reached exactly by the assignments with v + w = 1 and t = 0, that is by (1,0,0) and
  (0,1,0), so every minimum-energy assignment satisfies the constraint v + w = 1.
\<close>

theorem toy_minimum_satisfies_constraint:
  assumes "binary_on [1, 2, 3] x"
  shows "toy_Q 4 = [((1, 1), -3), ((2, 2), -3), ((3, 3), 1), ((1, 2), 8)]
    \<and> - 3 \<le> energy (toy_Q 4) x
    \<and> (minimises (toy_Q 4) [1, 2, 3] x \<longleftrightarrow> x 1 + x 2 = 1 \<and> x 3 = 0)
    \<and> (minimises (toy_Q 4) [1, 2, 3] x \<longleftrightarrow> energy (toy_Q 4) x = - 3)
    \<and> (minimises (toy_Q 4) [1, 2, 3] x \<longleftrightarrow>
         (x 1, x 2, x 3) = (1, 0, 0) \<or> (x 1, x 2, x 3) = (0, 1, 0))"
proof -
  have m: "minimises (toy_Q 4) [1, 2, 3] x \<longleftrightarrow> energy (toy_Q 4) x = - 3"
  proof
    assume "minimises (toy_Q 4) [1, 2, 3] x"
    then have "energy (toy_Q 4) x \<le> energy (toy_Q 4) toy_result"
      using toy_result_binary by (simp add: minimises_def)
    then show "energy (toy_Q 4) x = - 3"
      using toy_cases(1)[OF assms] by (simp add: toy_result_energy)
  next
    assume "energy (toy_Q 4) x = - 3"
    then show "minimises (toy_Q 4) [1, 2, 3] x"
      using assms toy_cases(1) by (simp add: minimises_def)
  qed
  have t: "(x 1 + x 2 = 1 \<and> x 3 = 0) \<longleftrightarrow>
      ((x 1, x 2, x 3) = (1, 0, 0) \<or> (x 1, x 2, x 3) = (0, 1, 0))"
    using assms by (auto simp: binary_on_def)
  show ?thesis
    using m t toy_cases[OF assms] toy_Q_4 by simp
qed

theorem toy_minimum_witness:
  "binary_on [1, 2, 3] toy_result \<and> minimises (toy_Q 4) [1, 2, 3] toy_result
    \<and> energy (toy_Q 4) toy_result = - 3 \<and> toy_result 1 + toy_result 2 = 1"
proof -
  note t = toy_minimum_satisfies_constraint [OF toy_result_binary]
  have c: "toy_result 1 + toy_result 2 = 1 \<and> toy_result 3 = 0"
    by (simp add: toy_result_def)
  from t c have "minimises (toy_Q 4) [1, 2, 3] toy_result"
    by blast
  with t c show ?thesis
    using toy_result_binary by blast
qed

section \<open>The equal-size penalty of graph partitioning\<close>

lemma sum_take_indicator:
  "distinct xs \<Longrightarrow> (\<Sum>i \<leftarrow> xs. if i \<in> set (take k xs) then 1 else (0::int)) = int (min k (length xs))"
proof (induction xs arbitrary: k)
  case Nil
  show ?case by simp
next
  case (Cons a xs)
  show ?case
  proof (cases k)
    case 0
    then show ?thesis by simp
  next
    case (Suc k')
    have "map (\<lambda>i. if i \<in> set (take k (a # xs)) then 1 else (0::int)) xs =
        map (\<lambda>i. if i \<in> set (take k' xs) then 1 else 0) xs"
      using Cons.prems Suc by (intro map_cong) auto
    then have "sum_list (map (\<lambda>i. if i \<in> set (take k (a # xs)) then 1 else (0::int)) xs) =
        sum_list (map (\<lambda>i. if i \<in> set (take k' xs) then 1 else 0) xs)"
      by (rule arg_cong)
    moreover have "a \<in> set (take k (a # xs))"
      using Suc by simp
    ultimately have "(\<Sum>i \<leftarrow> a # xs. if i \<in> set (take k (a # xs)) then 1 else (0::int)) =
        1 + (\<Sum>i \<leftarrow> xs. if i \<in> set (take k' xs) then 1 else 0)"
      by (simp del: take_Suc_Cons)
    also have "\<dots> = 1 + int (min k' (length xs))"
      using Cons.IH[of k'] Cons.prems by simp
    finally show ?thesis
      using Suc by simp
  qed
qed

lemma sum_nodes_first_half:
  "distinct nodes \<Longrightarrow> sum_nodes nodes (first_half nodes) = int (length nodes div 2)"
  using sum_take_indicator[of nodes "length nodes div 2"]
  by (simp add: sum_nodes_def first_half_def)

lemma binary_first_half: "binary_on vs (first_half nodes)"
  by (simp add: binary_on_def first_half_def)

lemma penalty_square:
  assumes "even (length nodes)" "binary_on nodes x"
  shows "energy (partition_penalty nodes gamma) x + gamma * (int (length nodes div 2))\<^sup>2
    = gamma * (sum_nodes nodes x - int (length nodes div 2))\<^sup>2"
proof -
  from assms(1) obtain h where h: "length nodes = 2 * h" by (auto elim: evenE)
  show ?thesis
    unfolding energy_partition_penalty[OF assms(2)] h
    by (simp add: power2_eq_square algebra_simps)
qed

text \<open>
  C1. For a penalty weight \<open>gamma > 0\<close> and an even number of nodes, the constraint-penalty
  portion of the dictionary (the \<open>gamma * (1 - n)\<close> diagonal entries and the \<open>2 * gamma\<close>
  entries on the pairs of distinct nodes) has its least energy over the binary assignments
  exactly at the assignments whose sum is \<open>n / 2\<close>: an assignment is a minimiser if and only
  if it splits the nodes evenly, and one that does not has strictly more energy than an
  even split.
\<close>

theorem partition_penalty_minimum:
  assumes "0 < gamma" and "even (length nodes)" and "distinct nodes" and "binary_on nodes x"
  shows "(minimises (partition_penalty nodes gamma) nodes x
           \<longleftrightarrow> sum_nodes nodes x = int (length nodes div 2))
    \<and> (sum_nodes nodes x \<noteq> int (length nodes div 2) \<longrightarrow>
          energy (partition_penalty nodes gamma) (first_half nodes)
            < energy (partition_penalty nodes gamma) x)"
proof -
  let ?P = "partition_penalty nodes gamma"
  let ?h = "int (length nodes div 2)"
  have sq: "energy ?P y + gamma * ?h\<^sup>2 = gamma * (sum_nodes nodes y - ?h)\<^sup>2"
    if "binary_on nodes y" for y
    using penalty_square[OF assms(2) that] .
  have lower: "- (gamma * ?h\<^sup>2) \<le> energy ?P y" if "binary_on nodes y" for y
  proof -
    have "0 \<le> gamma * (sum_nodes nodes y - ?h)\<^sup>2"
      using assms(1) by simp
    with sq[OF that] show ?thesis by linarith
  qed
  have half: "energy ?P (first_half nodes) = - (gamma * ?h\<^sup>2)"
    using sq[OF binary_first_half[of nodes nodes]] sum_nodes_first_half[OF assms(3)] by simp
  have strict: "energy ?P (first_half nodes) < energy ?P x"
    if "sum_nodes nodes x \<noteq> ?h"
  proof -
    from that have "0 < (sum_nodes nodes x - ?h)\<^sup>2" by simp
    with assms(1) have "0 < gamma * (sum_nodes nodes x - ?h)\<^sup>2" by simp
    with sq[OF assms(4)] half show ?thesis by linarith
  qed
  have "minimises ?P nodes x \<longleftrightarrow> sum_nodes nodes x = ?h"
  proof
    assume "minimises ?P nodes x"
    then have "energy ?P x \<le> energy ?P (first_half nodes)"
      using binary_first_half by (simp add: minimises_def)
    with strict show "sum_nodes nodes x = ?h" by fastforce
  next
    assume "sum_nodes nodes x = ?h"
    with sq[OF assms(4)] have "energy ?P x = - (gamma * ?h\<^sup>2)" by simp
    with lower assms(4) show "minimises ?P nodes x"
      by (simp add: minimises_def)
  qed
  with strict show ?thesis by blast
qed

lemma nodes4: "[0..<4] = [0, 1, 2, 3]"
  by (simp add: upt_conv_Cons)

theorem partition_penalty_minimum_witness:
  "minimises (partition_penalty [0..<4] 80) [0..<4] (first_half [0..<4])
    \<and> sum_nodes [0..<4] (first_half [0..<4]) = 2"
proof -
  have s: "sum_nodes [0..<4] (first_half [0..<4]) = int (length [0..<4] div 2)"
    by (simp add: nodes4 sum_nodes_def first_half_def)
  have "(0::int) < 80" "even (length [0..<4])" "distinct [0..<4]"
    by simp_all
  from partition_penalty_minimum[OF this binary_first_half] s show ?thesis
    by simp
qed

text \<open>
  C2 (as the code has it). The encoder drops the constant term of the squared constraint, so
  for a binary assignment \<open>x\<close> of an even number \<open>n\<close> of nodes the constraint-penalty portion
  evaluates to \<open>gamma * (sum x - n/2)\<^sup>2 - gamma * (n/2)\<^sup>2\<close>. With the dropped
  constant \<open>gamma * (n/2)\<^sup>2\<close> added back it is exactly 0 when \<open>sum x = n/2\<close> and
  strictly positive otherwise (for \<open>gamma > 0\<close>).
\<close>

theorem partition_penalty_value:
  assumes "0 < gamma" and "even (length nodes)" and "binary_on nodes x"
  shows "energy (partition_penalty nodes gamma) x =
        gamma * (sum_nodes nodes x - int (length nodes div 2))\<^sup>2 - gamma * (int (length nodes div 2))\<^sup>2
    \<and> (sum_nodes nodes x = int (length nodes div 2) \<longrightarrow>
          energy (partition_penalty nodes gamma) x + gamma * (int (length nodes div 2))\<^sup>2 = 0)
    \<and> (sum_nodes nodes x \<noteq> int (length nodes div 2) \<longrightarrow>
          0 < energy (partition_penalty nodes gamma) x + gamma * (int (length nodes div 2))\<^sup>2)"
proof -
  let ?h = "int (length nodes div 2)"
  note sq = penalty_square[OF assms(2,3), of gamma]
  have "0 < gamma * (sum_nodes nodes x - ?h)\<^sup>2" if "sum_nodes nodes x \<noteq> ?h"
    using that assms(1) by simp
  with sq show ?thesis by auto
qed

lemma binary_all_zero: "binary_on vs all_zero"
  by (simp add: binary_on_def all_zero_def)

theorem partition_penalty_value_witness:
  "energy (partition_penalty [0..<4] 1) (first_half [0..<4]) = - 4
   \<and> energy (partition_penalty [0..<4] 1) all_zero = 0
   \<and> 0 < energy (partition_penalty [0..<4] 1) all_zero + 1 * (int (length [0..<4] div 2))\<^sup>2"
proof -
  have g: "(0::int) < 1" and e: "even (length [0..<4])"
    by simp_all
  have s1: "sum_nodes [0..<4] (first_half [0..<4]) = 2"
    by (simp add: nodes4 sum_nodes_def first_half_def)
  have s0: "sum_nodes [0..<4] all_zero = 0"
    by (simp add: nodes4 sum_nodes_def all_zero_def)
  from partition_penalty_value[OF g e binary_first_half] s1
  have a: "energy (partition_penalty [0..<4] 1) (first_half [0..<4]) = - 4"
    by simp
  from partition_penalty_value[OF g e binary_all_zero] s0
  have b: "energy (partition_penalty [0..<4] 1) all_zero = 0"
    by simp
  from a b show ?thesis by simp
qed

text \<open>
  The penalty portion itself is not 0 on an even split and not positive elsewhere: with four
  nodes and \<open>gamma = 1\<close> it is -4 when two nodes are chosen, and 0 when none is.
\<close>

theorem partition_penalty_not_zero_counterexample:
  "binary_on [0..<4] (first_half [0..<4])
   \<and> sum_nodes [0..<4] (first_half [0..<4]) = 4 div 2
   \<and> energy (partition_penalty [0..<4] 1) (first_half [0..<4]) = - 4
   \<and> energy (partition_penalty [0..<4] 1) (first_half [0..<4]) \<noteq> 0
   \<and> binary_on [0..<4] all_zero
   \<and> sum_nodes [0..<4] all_zero \<noteq> 4 div 2
   \<and> energy (partition_penalty [0..<4] 1) all_zero = 0
   \<and> \<not> 0 < energy (partition_penalty [0..<4] 1) all_zero"
proof -
  have p: "partition_penalty [0..<4] 1 =
    [((0, 0), - 3), ((1, 1), - 3), ((2, 2), - 3), ((3, 3), - 3),
     ((0, 1), 2), ((0, 2), 2), ((0, 3), 2), ((1, 2), 2), ((1, 3), 2), ((2, 3), 2)]"
    by (simp add: nodes4 partition_penalty_def iadd_def)
  show ?thesis
    unfolding p
    by (simp add: nodes4 binary_first_half binary_all_zero sum_nodes_def first_half_def
        all_zero_def energy_def)
qed

section \<open>Cut sizes, energies and the partition check\<close>

lemma binary_edge_terms:
  assumes "binary_on (endpoints edges) x"
  shows "(\<Sum>(u, v) \<leftarrow> edges. x u * x u + x v * x v - 2 * x u * x v) = cut_size edges x"
  using assms
proof (induction edges)
  case Nil
  show ?case by (simp add: cut_size_def)
next
  case (Cons e es)
  obtain u v where e: "e = (u, v)" by (cases e)
  from Cons.prems e have b: "x u = 0 \<or> x u = 1" "x v = 0 \<or> x v = 1" "binary_on (endpoints es) x"
    by (simp_all add: binary_on_def endpoints_def)
  from b(1,2) have "x u * x u + x v * x v - 2 * x u * x v = x u + x v - 2 * x u * x v"
    by auto
  with Cons.IH[OF b(3)] e show ?case
    by (simp add: cut_size_def)
qed

lemma cut_size_length:
  assumes "binary_on (endpoints edges) x"
  shows "cut_size edges x = int (length (cut_edges edges x))"
  using assms
proof (induction edges)
  case Nil
  show ?case by (simp add: cut_size_def cut_edges_def)
next
  case (Cons e es)
  obtain u v where e: "e = (u, v)" by (cases e)
  from Cons.prems e have b: "x u = 0 \<or> x u = 1" "x v = 0 \<or> x v = 1" "binary_on (endpoints es) x"
    by (simp_all add: binary_on_def endpoints_def)
  from b(1,2) have "x u + x v - 2 * x u * x v = (if x u \<noteq> x v then 1 else 0)"
    by auto
  with Cons.IH[OF b(3)] e show ?case
    by (simp add: cut_size_def cut_edges_def)
qed


lemma energy_maxcut_cut:
  "binary_on (endpoints edges) x \<Longrightarrow> energy (maxcut_Q edges) x = - cut_size edges x"
  by (simp add: maxcut_Q_def energy_maxcut_loop energy_Nil binary_edge_terms)


lemma maxcut_Q_edges:
  "maxcut_Q maxcut_edges =
     [((1, 1), - 2), ((2, 2), - 2), ((1, 2), 2), ((3, 3), - 3), ((1, 3), 2), ((4, 4), - 3),
      ((2, 4), 2), ((3, 4), 2), ((5, 5), - 2), ((3, 5), 2), ((4, 5), 2)]"
  by (simp add: maxcut_Q_def maxcut_edges_def iadd_def)

lemma getting_started_Q_eq:
  "getting_started_Q =
     [((1, 1), - 2), ((2, 2), - 2), ((1, 2), 2), ((3, 3), - 3), ((1, 3), 2), ((4, 4), - 3),
      ((2, 4), 2), ((3, 4), 2), ((5, 5), - 2), ((3, 5), 2), ((4, 5), 2)]"
  by (simp add: getting_started_Q_def)

lemma binary_maxcut_result: "binary_on vs maxcut_result"
  by (simp add: binary_on_def maxcut_result_def)

lemma maxcut_result_cut: "cut_size maxcut_edges maxcut_result = 5"
  by (simp add: cut_size_def maxcut_edges_def maxcut_result_def)

lemma endpoints_maxcut: "set (endpoints maxcut_edges) = set [1, 2, 3, 4, 5]"
  by (auto simp: endpoints_def maxcut_edges_def)

lemma binary_endpoints_maxcut:
  "binary_on [1, 2, 3, 4, 5] x \<Longrightarrow> binary_on (endpoints maxcut_edges) x"
  unfolding binary_on_def endpoints_maxcut by simp

lemma maxcut_cut_le_5:
  assumes "binary_on [1, 2, 3, 4, 5] x"
  shows "cut_size maxcut_edges x \<le> 5"
proof -
  from assms have b: "x 1 = 0 \<or> x 1 = 1" "x 2 = 0 \<or> x 2 = 1" "x 3 = 0 \<or> x 3 = 1"
    "x 4 = 0 \<or> x 4 = 1" "x 5 = 0 \<or> x 5 = 1"
    by (simp_all add: binary_on_def)
  have t: "x 3 + x 4 - 2 * x 3 * x 4 + (x 3 + x 5 - 2 * x 3 * x 5)
      + (x 4 + x 5 - 2 * x 4 * x 5) \<le> 2"
    using b(3,4,5) by auto
  have r: "x 1 + x 2 - 2 * x 1 * x 2 \<le> 1" "x 1 + x 3 - 2 * x 1 * x 3 \<le> 1"
    "x 2 + x 4 - 2 * x 2 * x 4 \<le> 1"
    using b by auto
  from t r show ?thesis
    by (simp add: cut_size_def maxcut_edges_def)
qed




text \<open>
  C4. On the edge list \<^verbatim>\<open>[(1,2),(1,3),(2,4),(3,4),(3,5),(4,5)]\<close> the max-cut encoder builds
  exactly the dictionary \<^verbatim>\<open>{(1,1):-2, (2,2):-2, (1,2):2, (3,3):-3, (1,3):2, (4,4):-3, (2,4):2, (3,4):2, (5,5):-2, (3,5):2, (4,5):2}\<close>
  (the one written out in the introductory notebook), and a binary assignment of the five
  nodes has the least energy if and only if it cuts exactly 5 edges; no assignment cuts
  more, and the notebook's result is such a minimiser.
\<close>

theorem maxcut_reference_instance:
  assumes "binary_on [1, 2, 3, 4, 5] x"
  shows "maxcut_Q maxcut_edges =
       [((1, 1), - 2), ((2, 2), - 2), ((1, 2), 2), ((3, 3), - 3), ((1, 3), 2), ((4, 4), - 3),
        ((2, 4), 2), ((3, 4), 2), ((5, 5), - 2), ((3, 5), 2), ((4, 5), 2)]
    \<and> getting_started_Q = maxcut_Q maxcut_edges
    \<and> (minimises (maxcut_Q maxcut_edges) [1, 2, 3, 4, 5] x
          \<longleftrightarrow> length (cut_edges maxcut_edges x) = 5)
    \<and> (minimises (maxcut_Q maxcut_edges) [1, 2, 3, 4, 5] x
          \<longleftrightarrow> energy (maxcut_Q maxcut_edges) x = - 5)
    \<and> length (cut_edges maxcut_edges x) \<le> 5
    \<and> minimises (maxcut_Q maxcut_edges) [1, 2, 3, 4, 5] maxcut_result"
proof -
  let ?Q = "maxcut_Q maxcut_edges"
  let ?vs = "[1, 2, 3, 4, 5] :: nat list"
  have en: "energy ?Q y = - cut_size maxcut_edges y" if "binary_on ?vs y" for y
    using that by (simp add: energy_maxcut_cut binary_endpoints_maxcut)
  have len: "cut_size maxcut_edges y = int (length (cut_edges maxcut_edges y))"
    if "binary_on ?vs y" for y
    using that by (simp add: cut_size_length binary_endpoints_maxcut)
  have lower: "- 5 \<le> energy ?Q y" if "binary_on ?vs y" for y
    using en[OF that] maxcut_cut_le_5[OF that] by simp
  have best: "energy ?Q maxcut_result = - 5"
    using en[OF binary_maxcut_result] by (simp add: maxcut_result_cut)
  have m: "minimises ?Q ?vs y \<longleftrightarrow> energy ?Q y = - 5" if "binary_on ?vs y" for y
  proof
    assume "minimises ?Q ?vs y"
    then have "energy ?Q y \<le> energy ?Q maxcut_result"
      using binary_maxcut_result by (simp add: minimises_def)
    with lower[OF that] best show "energy ?Q y = - 5" by simp
  next
    assume "energy ?Q y = - 5"
    with lower that show "minimises ?Q ?vs y"
      by (simp add: minimises_def)
  qed
  have c: "energy ?Q x = - 5 \<longleftrightarrow> length (cut_edges maxcut_edges x) = 5"
    using en[OF assms] len[OF assms] by simp
  have le: "length (cut_edges maxcut_edges x) \<le> 5"
    using maxcut_cut_le_5[OF assms] len[OF assms] by simp
  have r: "minimises ?Q ?vs maxcut_result"
    using m[OF binary_maxcut_result] best by simp
  show ?thesis
    using maxcut_Q_edges getting_started_Q_eq m[OF assms] c le r by simp
qed

theorem maxcut_reference_instance_witness:
  "binary_on [1, 2, 3, 4, 5] maxcut_result
    \<and> minimises (maxcut_Q maxcut_edges) [1, 2, 3, 4, 5] maxcut_result
    \<and> length (cut_edges maxcut_edges maxcut_result) = 5
    \<and> energy (maxcut_Q maxcut_edges) maxcut_result = - 5"
proof -
  note t = maxcut_reference_instance [OF binary_maxcut_result]
  from t have "minimises (maxcut_Q maxcut_edges) [1, 2, 3, 4, 5] maxcut_result"
    by blast
  with t show ?thesis
    using binary_maxcut_result by blast
qed

lemma floor_half: "\<lfloor>real n / 2\<rfloor> = int (n div 2)"
proof -
  have "\<lfloor>real n / real 2\<rfloor> = int (n div 2)"
    by (rule floor_divide_of_nat_eq)
  then show ?thesis by simp
qed

lemma ceiling_half: "\<lceil>real n / 2\<rceil> = int ((n + 1) div 2)"
proof (cases "even n")
  case True
  then obtain k where "n = 2 * k" by (auto elim: evenE)
  then show ?thesis by simp
next
  case False
  then obtain k where k: "n = 2 * k + 1" by (auto elim: oddE)
  have "\<lceil>real n / 2\<rceil> = \<lceil>real k + 1 / 2\<rceil>"
    using k by (simp add: field_simps)
  also have "\<dots> = int k + 1"
    by (simp add: ceiling_eq_iff)
  finally show ?thesis
    using k by simp
qed

lemma int8_add_left: "int8 (int8 a + b) = int8 (a + b)"
  by (simp add: int8_def mod_simps algebra_simps)

lemma int8_exact: "- 128 \<le> v \<Longrightarrow> v \<le> 127 \<Longrightarrow> int8 v = v"
  by (simp add: int8_def)

lemma sum_int8_binary:
  "binary_sample sample \<Longrightarrow> sum_int8 (int8 a) sample = int8 (a + int (count_ones sample))"
proof (induction sample arbitrary: a)
  case Nil
  show ?case by (simp add: count_ones_def)
next
  case (Cons e es)
  then have e: "e = 0 \<or> e = 1" and es: "binary_sample es"
    by (simp_all add: binary_sample_def)
  have "sum_int8 (int8 a) (e # es) = sum_int8 (int8 (a + e)) es"
    by (simp add: int8_add_left)
  also have "\<dots> = int8 (a + e + int (count_ones es))"
    by (rule Cons.IH[OF es])
  also have "a + e + int (count_ones es) = a + int (count_ones (e # es))"
    using e by (auto simp: count_ones_def)
  finally show ?case .
qed

lemma sum_int8_count:
  "binary_sample sample \<Longrightarrow> sum_int8 0 sample = int8 (int (count_ones sample))"
  using sum_int8_binary[of sample 0] by (simp add: int8_def)

lemma int8_edge_term:
  assumes "a = 0 \<or> a = 1" and "b = 0 \<or> b = (1::int)"
  shows "int8 (int8 (a + b) - int8 (int8 (2 * a) * b)) = a + b - 2 * a * b"
  using assms by (auto simp: int8_def)

lemma binary_sample_nth: "binary_sample sample \<Longrightarrow> u < length sample \<Longrightarrow> sample ! u = 0 \<or> sample ! u = 1"
  by (auto simp: binary_sample_def list_all_iff)

lemma num_cut_edges_int8:
  assumes "binary_sample sample"
    and "list_all (\<lambda>(u, v). u < length sample \<and> v < length sample) edges"
  shows "num_cut_edges (int8 a) edges sample = Inr (int8 (a + cut_size edges (of_sample sample)))"
  using assms(2)
proof (induction edges arbitrary: a)
  case Nil
  show ?case by (simp add: cut_size_def)
next
  case (Cons e es)
  obtain u v where e: "e = (u, v)" by (cases e)
  from Cons.prems e have r: "u < length sample" "v < length sample"
    and es: "list_all (\<lambda>(u, v). u < length sample \<and> v < length sample) es"
    by simp_all
  let ?t = "sample ! u + sample ! v - 2 * sample ! u * sample ! v"
  have t: "int8 (int8 (sample ! u + sample ! v) - int8 (int8 (2 * sample ! u) * sample ! v)) = ?t"
    using binary_sample_nth[OF assms(1) r(1)] binary_sample_nth[OF assms(1) r(2)]
    by (rule int8_edge_term)
  have "num_cut_edges (int8 a) (e # es) sample = num_cut_edges (int8 (a + ?t)) es sample"
    using r e by (simp add: t int8_add_left)
  also have "\<dots> = Inr (int8 (a + ?t + cut_size es (of_sample sample)))"
    by (rule Cons.IH[OF es])
  also have "a + ?t + cut_size es (of_sample sample) = a + cut_size (e # es) (of_sample sample)"
    using e by (simp add: cut_size_def of_sample_def)
  finally show ?case .
qed

lemma num_cut_edges_count:
  assumes "binary_sample sample"
    and "list_all (\<lambda>(u, v). u < length sample \<and> v < length sample) edges"
  shows "num_cut_edges 0 edges sample = Inr (int8 (cut_size edges (of_sample sample)))"
  using num_cut_edges_int8[OF assms, of 0] by (simp add: int8_def)

lemma num_cut_edges_IndexError:
  "\<not> list_all (\<lambda>(u, v). u < length sample \<and> v < length sample) edges \<Longrightarrow>
     num_cut_edges acc edges sample = Inl IndexError"
  by (induction acc edges sample rule: num_cut_edges.induct) (simp_all)

text \<open>What the check computes on any binary sample that covers the edges.\<close>

lemma partition_check_int8:
  assumes "binary_sample sample"
    and "list_all (\<lambda>(u, v). u < length sample \<and> v < length sample) edges"
  shows "partition_check nodes edges sample =
      (if int8 (int (count_ones sample)) = int (length nodes div 2)
          \<or> int8 (int (count_ones sample)) = int ((length nodes + 1) div 2)
       then Inr (Valid_partition (int8 (cut_size edges (of_sample sample))))
       else Inr Invalid_partition)"
  using assms
  by (simp add: partition_check_def floor_half ceiling_half sum_int8_count num_cut_edges_count)

lemma binary_on_of_sample:
  assumes "binary_sample sample"
    and "list_all (\<lambda>(u, v). u < length sample \<and> v < length sample) edges"
  shows "binary_on (endpoints edges) (of_sample sample)"
  using assms(2)
  by (induction edges)
    (auto simp: binary_on_def endpoints_def of_sample_def dest: binary_sample_nth[OF assms(1)])

lemma count_ones_le: "count_ones sample \<le> length sample"
  by (simp add: count_ones_def)

text \<open>
  Within the 8-bit range (at most 127 entries in the sample and at most 127 edges) nothing
  wraps, and the check accepts exactly the samples with \<open>floor(n/2)\<close> or \<open>ceil(n/2)\<close> ones
  and reports the number of cut edges.
\<close>

lemma partition_check_in_range:
  assumes "binary_sample sample"
    and "list_all (\<lambda>(u, v). u < length sample \<and> v < length sample) edges"
    and "length sample \<le> 127" and "length edges \<le> 127"
  shows "partition_check nodes edges sample =
      (if count_ones sample = length nodes div 2 \<or> count_ones sample = (length nodes + 1) div 2
       then Inr (Valid_partition (cut_size edges (of_sample sample)))
       else Inr Invalid_partition)"
proof -
  have "int (count_ones sample) \<le> 127"
    using count_ones_le[of sample] assms(3) by simp
  then have c: "int8 (int (count_ones sample)) = int (count_ones sample)"
    by (simp add: int8_exact)
  have "cut_size edges (of_sample sample) = int (length (cut_edges edges (of_sample sample)))"
    by (rule cut_size_length[OF binary_on_of_sample[OF assms(1,2)]])
  moreover have "length (cut_edges edges (of_sample sample)) \<le> length edges"
    by (simp add: cut_edges_def)
  ultimately have "0 \<le> cut_size edges (of_sample sample)" "cut_size edges (of_sample sample) \<le> 127"
    using assms(4) by simp_all
  then have s: "int8 (cut_size edges (of_sample sample)) = cut_size edges (of_sample sample)"
    by (simp add: int8_exact)
  show ?thesis
    unfolding partition_check_int8[OF assms(1,2)] c s by simp
qed

lemma binary_ones_then_zeros: "binary_sample (ones_then_zeros k n)"
  by (auto simp: binary_sample_def ones_then_zeros_def list_all_iff)

lemma count_ones_then_zeros: "count_ones (ones_then_zeros k n) = k"
  by (simp add: count_ones_def ones_then_zeros_def)

lemma length_ones_then_zeros: "k \<le> n \<Longrightarrow> length (ones_then_zeros k n) = n"
  by (simp add: ones_then_zeros_def)

lemma cut_ones_then_zeros:
  "0 < k \<Longrightarrow> k \<le> 40 \<Longrightarrow> cut_size [(0, 40)] (of_sample (ones_then_zeros k 41)) = 1"
  by (simp add: cut_size_def of_sample_def ones_then_zeros_def nth_append)

text \<open>A 41-node instance: 20 and 21 ones are accepted, 19 and 22 are rejected.\<close>

lemma partition_check_41_nodes:
  "partition_check [0..<41] [(0, 40)] (ones_then_zeros 20 41) = Inr (Valid_partition 1)
   \<and> partition_check [0..<41] [(0, 40)] (ones_then_zeros 21 41) = Inr (Valid_partition 1)
   \<and> partition_check [0..<41] [(0, 40)] (ones_then_zeros 19 41) = Inr Invalid_partition
   \<and> partition_check [0..<41] [(0, 40)] (ones_then_zeros 22 41) = Inr Invalid_partition"
proof -
  have r: "list_all (\<lambda>(u, v). u < length (ones_then_zeros k 41) \<and> v < length (ones_then_zeros k 41))
      [(0, 40)]" if "k \<le> 41" for k
    using that by (simp add: length_ones_then_zeros)
  have l: "length (ones_then_zeros k 41) \<le> 127" if "k \<le> 41" for k
    using that by (simp add: length_ones_then_zeros)
  have e: "length [(0::nat, 40::nat)] \<le> 127"
    by simp
  note t = partition_check_in_range [OF binary_ones_then_zeros r l e, of _ "[0..<41]"]
  have "partition_check [0..<41] [(0, 40)] (ones_then_zeros 20 41) = Inr (Valid_partition 1)"
    using t[of 20] by (simp add: count_ones_then_zeros cut_ones_then_zeros)
  moreover
  have "partition_check [0..<41] [(0, 40)] (ones_then_zeros 21 41) = Inr (Valid_partition 1)"
    using t[of 21] by (simp add: count_ones_then_zeros cut_ones_then_zeros)
  moreover
  have "partition_check [0..<41] [(0, 40)] (ones_then_zeros 19 41) = Inr Invalid_partition"
    using t[of 19] by (simp add: count_ones_then_zeros)
  moreover
  have "partition_check [0..<41] [(0, 40)] (ones_then_zeros 22 41) = Inr Invalid_partition"
    using t[of 22] by (simp add: count_ones_then_zeros)
  ultimately show ?thesis by simp
qed

lemma length_k12_edges: "length k12_edges = 144"
  by (simp add: k12_edges_def length_concat comp_def sum_list_triv)

lemma k12_edges_in_range:
  "list_all (\<lambda>(u, v). u < length (ones_then_zeros 12 24) \<and> v < length (ones_then_zeros 12 24))
     k12_edges"
  by (auto simp: k12_edges_def list_all_iff length_ones_then_zeros)

lemma k12_all_cut: "cut_edges k12_edges (of_sample (ones_then_zeros 12 24)) = k12_edges"
  unfolding cut_edges_def
  by (rule filter_True) (auto simp: k12_edges_def of_sample_def ones_then_zeros_def nth_append)

lemma k12_cut_size: "cut_size k12_edges (of_sample (ones_then_zeros 12 24)) = 144"
  using cut_size_length[OF binary_on_of_sample[OF binary_ones_then_zeros k12_edges_in_range]]
  by (simp add: k12_all_cut length_k12_edges)

text \<open>
  C5. The check is meant to report a valid partition, with the number of cut edges, exactly
  when the number of ones is \<open>floor(n/2)\<close> or \<open>ceil(n/2)\<close>. The 8-bit sums break this on
  larger instances. With 300 nodes and 150 ones the sum wraps to -106 and the even split is
  reported invalid. With the 24 nodes of the complete bipartite graph split along its two
  sides, the split is accepted but its 144 cut edges are reported as -112.
\<close>

theorem partition_check_int8_wraps:
  "count_ones (ones_then_zeros 150 300) = 300 div 2
   \<and> partition_check [0..<300] [] (ones_then_zeros 150 300) = Inr Invalid_partition
   \<and> count_ones (ones_then_zeros 12 24) = 24 div 2
   \<and> length (cut_edges k12_edges (of_sample (ones_then_zeros 12 24))) = 144
   \<and> partition_check [0..<24] k12_edges (ones_then_zeros 12 24) = Inr (Valid_partition (- 112))"
proof -
  have "list_all (\<lambda>(u, v). u < length (ones_then_zeros 150 300) \<and> v < length (ones_then_zeros 150 300)) []"
    by simp
  from partition_check_int8[OF binary_ones_then_zeros this, of "[0..<300]"]
  have a: "partition_check [0..<300] [] (ones_then_zeros 150 300) = Inr Invalid_partition"
    by (simp add: count_ones_then_zeros int8_def)
  from partition_check_int8[OF binary_ones_then_zeros k12_edges_in_range, of "[0..<24]"]
  have b: "partition_check [0..<24] k12_edges (ones_then_zeros 12 24) = Inr (Valid_partition (- 112))"
    by (simp add: count_ones_then_zeros k12_cut_size int8_def)
  from a b show ?thesis
    by (simp add: count_ones_then_zeros k12_all_cut length_k12_edges)
qed

section \<open>Knapsack: the objective and the feasible filter\<close>

lemma float64_exact: "\<bar>v\<bar> < 2 ^ 53 \<Longrightarrow> float64 v = v"
  by (simp add: float64_def)

lemma int64_neg_exact: "\<bar>v\<bar> < 2 ^ 53 \<Longrightarrow> int64_neg v = - v"
  by (simp add: int64_neg_def)

lemma set_linear_add_variable_new:
  "v \<notin> set (keys m) \<Longrightarrow> set_linear (add_variable m v) v b = m @ [(v, float64 b)]"
  by (induction m) (auto simp: set_linear_def add_variable_def iadd_def keys_def)

lemma knapsack_loop_upt:
  assumes "b \<le> length values" and "b \<le> length weights" and "a \<le> b"
    and "obj = map (\<lambda>i. (i, float64 (int64_neg (values ! i)))) [0..<a]"
    and "con = map (\<lambda>i. (i, float64 (weights ! i))) [0..<a]"
  shows "knapsack_loop obj con values weights [a..<b] =
     Inr (map (\<lambda>i. (i, float64 (int64_neg (values ! i)))) [0..<b],
          map (\<lambda>i. (i, float64 (weights ! i))) [0..<b])"
  using assms
proof (induction "b - a" arbitrary: a obj con)
  case 0
  then show ?case by simp
next
  case (Suc d)
  then have lt: "a < b" by simp
  have k1: "a \<notin> set (keys obj)" and k2: "a \<notin> set (keys con)"
    using Suc.prems(4,5) by (auto simp: keys_def)
  have o: "set_linear (add_variable obj a) a (int64_neg (values ! a)) =
      map (\<lambda>i. (i, float64 (int64_neg (values ! i)))) [0..<Suc a]"
    using set_linear_add_variable_new[OF k1] Suc.prems(4) by simp
  have c: "set_linear (add_variable con a) a (weights ! a) =
      map (\<lambda>i. (i, float64 (weights ! i))) [0..<Suc a]"
    using set_linear_add_variable_new[OF k2] Suc.prems(5) by simp
  have d: "d = b - Suc a" using Suc.hyps(2) by simp
  have "knapsack_loop obj con values weights [a..<b] =
      knapsack_loop (map (\<lambda>i. (i, float64 (int64_neg (values ! i)))) [0..<Suc a])
        (map (\<lambda>i. (i, float64 (weights ! i))) [0..<Suc a]) values weights [Suc a..<b]"
    using lt Suc.prems(1,2) o c by (simp add: upt_conv_Cons)
  also have "\<dots> = Inr (map (\<lambda>i. (i, float64 (int64_neg (values ! i)))) [0..<b],
      map (\<lambda>i. (i, float64 (weights ! i))) [0..<b])"
    using Suc.hyps(1)[OF d Suc.prems(1,2)] lt by simp
  finally show ?case .
qed

lemma knapsack_cqm_eq:
  assumes "length values \<le> length weights"
  shows "knapsack_cqm values weights max_weight =
     Inr \<lparr>objective = map (\<lambda>i. (i, float64 (int64_neg (values ! i)))) [0..<length values],
          constraint = map (\<lambda>i. (i, float64 (weights ! i))) [0..<length values],
          rhs = max_weight\<rparr>"
  using knapsack_loop_upt[of "length values" "values" "weights" 0 "[]" "[]"] assms
  by (simp add: knapsack_cqm_def)

lemma abs_le_sum_abs: "v \<in> set vs \<Longrightarrow> \<bar>v\<bar> \<le> (\<Sum>v \<leftarrow> vs. \<bar>v :: int\<bar>)"
proof (induction vs)
  case Nil
  then show ?case by simp
next
  case (Cons a vs)
  have "0 \<le> (\<Sum>v \<leftarrow> vs. \<bar>v\<bar>)"
    by (rule sum_list_nonneg) auto
  with Cons show ?case by auto
qed

lemma knapsack_objective_exact:
  assumes "(\<Sum>v \<leftarrow> values. \<bar>v\<bar>) < 2 ^ 53"
  shows "map (\<lambda>i. (i, float64 (int64_neg (values ! i)))) [0..<length values]
    = map (\<lambda>i. (i, - (values ! i))) [0..<length values]"
proof (rule map_cong[OF refl])
  fix i assume "i \<in> set [0..<length values]"
  then have "values ! i \<in> set values" by simp
  from abs_le_sum_abs[OF this] assms have b: "\<bar>values ! i\<bar> < 2 ^ 53"
    by linarith
  then have "\<bar>- (values ! i)\<bar> < 2 ^ 53" by simp
  then show "(i, float64 (int64_neg (values ! i))) = (i, - (values ! i))"
    by (simp only: int64_neg_exact[OF b] float64_exact)
qed

lemma float_sum_exact:
  assumes "\<bar>acc\<bar> + (\<Sum>(v, b) \<leftarrow> ts. \<bar>b\<bar>) < 2 ^ 53"
  shows "float_sum acc ts (indicator_vector S) = acc + (\<Sum>(v, b) \<leftarrow> ts. b * indicator_vector S v)"
  using assms
proof (induction ts arbitrary: acc)
  case Nil
  show ?case by simp
next
  case (Cons t ts)
  obtain v b where t: "t = (v, b)" by (cases t)
  let ?x = "indicator_vector S"
  have n: "0 \<le> (\<Sum>(v, b) \<leftarrow> ts. \<bar>b\<bar>)"
    by (rule sum_list_nonneg) auto
  have x: "\<bar>b * ?x v\<bar> \<le> \<bar>b\<bar>"
    by (simp add: indicator_vector_def)
  from Cons.prems t n have s: "\<bar>acc\<bar> + \<bar>b\<bar> + (\<Sum>(v, b) \<leftarrow> ts. \<bar>b\<bar>) < 2 ^ 53"
    by simp
  have "\<bar>b * ?x v\<bar> < 2 ^ 53"
    using x s n by linarith
  then have e1: "float64 (b * ?x v) = b * ?x v"
    by (rule float64_exact)
  have "\<bar>acc + b * ?x v\<bar> < 2 ^ 53"
    using x s n by linarith
  then have e2: "float64 (acc + b * ?x v) = acc + b * ?x v"
    by (rule float64_exact)
  have "\<bar>acc + b * ?x v\<bar> + (\<Sum>(v, b) \<leftarrow> ts. \<bar>b\<bar>) < 2 ^ 53"
    using x s by linarith
  from Cons.IH[OF this] show ?case
    by (simp add: t e1 e2)
qed

lemma sum_list_permuted:
  assumes "mset ts = mset ts'"
  shows "sum_list (map f ts) = (sum_list (map f ts') :: int)"
proof -
  have "image_mset f (mset ts) = image_mset f (mset ts')"
    using assms by simp
  then have "mset (map f ts) = mset (map f ts')"
    by (simp only: mset_map)
  then have "sum_mset (mset (map f ts)) = sum_mset (mset (map f ts'))"
    by simp
  then show ?thesis
    by (simp only: sum_mset_sum_list)
qed

lemma exact_value_indicator:
  assumes "S \<subseteq> {..<n}"
  shows "(\<Sum>(v, b) \<leftarrow> map (\<lambda>i. (i, - f i)) [0..<n]. b * indicator_vector S v) = - (\<Sum>i \<in> S. f i)"
proof -
  have "(\<Sum>(v, b) \<leftarrow> map (\<lambda>i. (i, - f i)) [0..<n]. b * indicator_vector S v)
      = (\<Sum>i \<leftarrow> [0..<n]. - f i * indicator_vector S i)"
    by (simp add: comp_def)
  also have "\<dots> = (\<Sum>i \<in> {0..<n}. - f i * indicator_vector S i)"
    by (simp add: interv_sum_list_conv_sum_set_nat)
  also have "\<dots> = (\<Sum>i \<in> {0..<n}. if i \<in> S then - f i else 0)"
    by (intro sum.cong) (simp_all add: indicator_vector_def)
  also have "\<dots> = (\<Sum>i \<in> {0..<n} \<inter> S. - f i)"
    by (simp add: sum.inter_restrict)
  also have "{0..<n} \<inter> S = S"
    using assms by auto
  finally show ?thesis
    by (simp add: sum_negf)
qed

lemma linear_value_permuted:
  assumes "(\<Sum>v \<leftarrow> values. \<bar>v\<bar>) < 2 ^ 53" and "S \<subseteq> {..<length values}"
    and "mset ts = mset (map (\<lambda>i. (i, - (values ! i))) [0..<length values])"
  shows "linear_value ts (indicator_vector S) = - (\<Sum>i \<in> S. values ! i)"
proof -
  let ?m = "map (\<lambda>i. (i, - (values ! i))) [0..<length values]"
  have "(\<Sum>(v, b) \<leftarrow> ts. \<bar>b\<bar>) = (\<Sum>(v, b) \<leftarrow> ?m. \<bar>b\<bar>)"
    by (rule sum_list_permuted[OF assms(3)])
  also have "\<dots> = (\<Sum>i \<leftarrow> [0..<length values]. \<bar>values ! i\<bar>)"
    by (simp add: comp_def)
  also have "\<dots> = (\<Sum>v \<leftarrow> map (\<lambda>i. values ! i) [0..<length values]. \<bar>v\<bar>)"
    by (simp add: comp_def)
  also have "map (\<lambda>i. values ! i) [0..<length values] = values"
    by (rule map_nth)
  finally have "\<bar>0\<bar> + (\<Sum>(v, b) \<leftarrow> ts. \<bar>b\<bar>) < 2 ^ 53"
    using assms(1) by simp
  from float_sum_exact[OF this, of S]
  have "linear_value ts (indicator_vector S) = (\<Sum>(v, b) \<leftarrow> ts. b * indicator_vector S v)"
    by (simp add: linear_value_def)
  also have "\<dots> = (\<Sum>(v, b) \<leftarrow> ?m. b * indicator_vector S v)"
    by (rule sum_list_permuted[OF assms(3)])
  also have "\<dots> = - (\<Sum>i \<in> S. values ! i)"
    by (rule exact_value_indicator[OF assms(2)])
  finally show ?thesis .
qed

text \<open>
  C7 (as the code has it). The model keeps its biases as 64-bit floats. For a list of item
  values whose absolute values add up to less than \<open>2^53\<close> (with a weight for every item,
  so that the encoder builds its model) every bias and every partial sum is exact: the
  coefficient of item \<open>i\<close> is \<open>- values[i]\<close>, and for every set \<open>S\<close> of items the objective
  evaluated at the 0/1 indicator vector of \<open>S\<close>, its terms added in any order, is exactly the
  negative of the sum of the values of the items in \<open>S\<close>.
\<close>

theorem knapsack_objective_value:
  assumes "length values \<le> length weights" and "(\<Sum>v \<leftarrow> values. \<bar>v\<bar>) < 2 ^ 53"
    and "S \<subseteq> {..<length values}"
  shows "\<exists>m. knapsack_cqm values weights max_weight = Inr m
      \<and> objective m = map (\<lambda>i. (i, - (values ! i))) [0..<length values]
      \<and> linear_value (objective m) (indicator_vector S) = - (\<Sum>i \<in> S. values ! i)
      \<and> (\<forall>ts. mset ts = mset (objective m) \<longrightarrow>
            linear_value ts (indicator_vector S) = - (\<Sum>i \<in> S. values ! i))"
proof -
  let ?m = "map (\<lambda>i. (i, - (values ! i))) [0..<length values]"
  have "knapsack_cqm values weights max_weight =
     Inr \<lparr>objective = ?m,
          constraint = map (\<lambda>i. (i, float64 (weights ! i))) [0..<length values],
          rhs = max_weight\<rparr>"
    unfolding knapsack_cqm_eq[OF assms(1)] knapsack_objective_exact[OF assms(2)] ..
  moreover have "\<forall>ts. mset ts = mset ?m \<longrightarrow>
      linear_value ts (indicator_vector S) = - (\<Sum>i \<in> S. values ! i)"
    using linear_value_permuted[OF assms(2,3)] by blast
  ultimately show ?thesis by simp
qed

lemma example_cqm:
  "knapsack_cqm example_values example_weights 8 =
     Inr \<lparr>objective = [(0, - 10), (1, - 7), (2, - 4)],
          constraint = [(0, 5), (1, 4), (2, 3)], rhs = 8\<rparr>"
  by (simp add: knapsack_cqm_def example_values_def example_weights_def upt_conv_Cons
      set_linear_def add_variable_def iadd_def float64_def int64_neg_def)

theorem knapsack_objective_value_witness:
  "length example_values \<le> length example_weights
    \<and> (\<Sum>v \<leftarrow> example_values. \<bar>v\<bar>) < 2 ^ 53
    \<and> {0, 2} \<subseteq> {..<length example_values}
    \<and> linear_value [(0, - 10), (1, - 7), (2, - 4)] (indicator_vector {0, 2}) = - 14
    \<and> linear_value [(2, - 4), (0, - 10), (1, - 7)] (indicator_vector {0, 2}) = - 14"
proof -
  have l: "length example_values \<le> length example_weights"
    by (simp add: example_values_def example_weights_def)
  have b: "(\<Sum>v \<leftarrow> example_values. \<bar>v\<bar>) < 2 ^ 53"
    by (simp add: example_values_def)
  have s: "{0, 2} \<subseteq> {..<length example_values}"
    by (simp add: example_values_def)
  have v: "(\<Sum>i \<in> {0, 2::nat}. example_values ! i) = 14"
    by (simp add: example_values_def)
  have p: "mset [(2, - 4), (0, - 10), (1 :: nat, - 7 :: int)] = mset [(0, - 10), (1, - 7), (2, - 4)]"
    by simp
  from knapsack_objective_value[OF l b s, of 8] obtain m where
    m: "knapsack_cqm example_values example_weights 8 = Inr m"
    and t1: "linear_value (objective m) (indicator_vector {0, 2})
        = - (\<Sum>i \<in> {0, 2}. example_values ! i)"
    and t2: "\<forall>ts. mset ts = mset (objective m) \<longrightarrow>
        linear_value ts (indicator_vector {0, 2}) = - (\<Sum>i \<in> {0, 2}. example_values ! i)"
    by blast
  from m example_cqm
  have "m = \<lparr>objective = [(0, - 10), (1, - 7), (2, - 4)],
      constraint = [(0, 5), (1, 4), (2, 3)], rhs = 8\<rparr>"
    by (simp only: sum.inject)
  then have o: "objective m = [(0, - 10), (1, - 7), (2, - 4)]"
    by (simp only: cqm.select_convs)
  from t1 have a: "linear_value [(0, - 10), (1, - 7), (2, - 4)] (indicator_vector {0, 2}) = - 14"
    unfolding o v .
  from t2 p have "linear_value [(2, - 4), (0, - 10), (1, - 7)] (indicator_vector {0, 2}) = - 14"
    unfolding o v by blast
  with a l b s show ?thesis by blast
qed

lemma bitlen_large: "bitlen 9007199254740993 = 54"
  by code_simp

lemma bitlen_large_even: "bitlen 9007199254740992 = 54"
  by code_simp

text \<open>
  Beyond that size the stored bias is rounded: a single item worth \<open>2^53 + 1\<close> gets the
  coefficient \<open>- 2^53\<close>, and the objective at the indicator of that item is \<open>- 2^53\<close>, not the
  negative of the item's value.
\<close>

theorem knapsack_objective_rounded_counterexample:
  "knapsack_cqm large_values [1] 1 =
      Inr \<lparr>objective = [(0, - 9007199254740992)], constraint = [(0, 1)], rhs = 1\<rparr>
    \<and> linear_value [(0, - 9007199254740992)] (indicator_vector {0}) = - 9007199254740992
    \<and> - (\<Sum>i \<in> {0}. large_values ! i) = - 9007199254740993
    \<and> linear_value [(0, - 9007199254740992)] (indicator_vector {0})
        \<noteq> - (\<Sum>i \<in> {0}. large_values ! i)"
proof -
  have n: "int64_neg 9007199254740993 = - 9007199254740993"
    by (simp add: int64_neg_def)
  have f: "float64 (- 9007199254740993) = - 9007199254740992"
    by (simp add: float64_def bitlen_large)
  have g: "float64 (- 9007199254740992) = - 9007199254740992"
    by (simp add: float64_def bitlen_large_even)
  have o: "float64 1 = 1"
    by (simp add: float64_def)
  have a: "knapsack_cqm large_values [1] 1 =
      Inr \<lparr>objective = [(0, - 9007199254740992)], constraint = [(0, 1)], rhs = 1\<rparr>"
    by (simp add: knapsack_cqm_def large_values_def set_linear_def add_variable_def iadd_def n f o)
  have b: "linear_value [(0, - 9007199254740992)] (indicator_vector {0}) = - 9007199254740992"
    by (simp add: linear_value_def indicator_vector_def g)
  from a b show ?thesis
    by (simp add: large_values_def)
qed

lemma lowest_in: "lowest b rs \<in> set (b # rs)"
  by (induction b rs rule: lowest.induct) auto

lemma lowest_le:
  "row_energy (lowest b rs) \<le> row_energy b
    \<and> (\<forall>r \<in> set rs. row_energy (lowest b rs) \<le> row_energy r)"
proof (induction b rs rule: lowest.induct)
  case (1 b)
  show ?case by simp
next
  case (2 b r' rs)
  let ?b = "if row_energy r' < row_energy b then r' else b"
  from "2.IH" have le: "row_energy (lowest ?b rs) \<le> row_energy ?b"
    and rest: "\<forall>r \<in> set rs. row_energy (lowest ?b rs) \<le> row_energy r"
    by simp_all
  have "row_energy ?b \<le> row_energy b" "row_energy ?b \<le> row_energy r'"
    by auto
  with le have "row_energy (lowest ?b rs) \<le> row_energy b"
    "row_energy (lowest ?b rs) \<le> row_energy r'"
    by linarith+
  with rest show ?case by simp
qed

lemma first_lowest:
  assumes "rs \<noteq> []"
  shows "\<exists>best \<in> set rs. first rs = Inr best \<and> (\<forall>r \<in> set rs. row_energy best \<le> row_energy r)"
proof (cases rs)
  case Nil
  with assms show ?thesis by simp
next
  case (Cons b rs')
  then show ?thesis
    using lowest_in[of b rs'] lowest_le[of b rs'] by auto
qed

lemma loc_in_range:
  "list_all (\<lambda>k. k < length xs) ks \<Longrightarrow> loc xs ks = Inr (map (\<lambda>k. xs ! k) ks)"
  by (induction ks) simp_all

lemma loc_error: "loc xs ks = Inl e \<Longrightarrow> \<exists>k. e = KeyError k"
  by (induction ks arbitrary: e) (auto split: if_splits sum.splits)

lemma selected_in_range:
  "list_all (\<lambda>(key, val). key < n) (row_sample r) \<Longrightarrow> list_all (\<lambda>k. k < n) (selected r)"
  by (auto simp: selected_def list_all_iff)

lemma knapsack_parse_empty:
  "filter is_feasible sampleset = [] \<Longrightarrow>
     knapsack_parse values weights sampleset = Inl (ValueError ''No feasible solution found'')"
  by (simp add: knapsack_parse_def)

lemma knapsack_parse_nonempty:
  assumes "filter is_feasible sampleset \<noteq> []"
  shows "knapsack_parse values weights sampleset \<noteq> Inl (ValueError ''No feasible solution found'')"
proof -
  from first_lowest[OF assms] obtain best where
    b: "first (filter is_feasible sampleset) = Inr best" by blast
  have n: "length (filter is_feasible sampleset) \<noteq> 0"
    using assms by simp
  show ?thesis
  proof (cases "loc weights (selected best)")
    case (Inl e)
    then obtain k where "e = KeyError k" by (auto dest: loc_error)
    with Inl n b show ?thesis
      by (simp add: knapsack_parse_def)
  next
    case w: (Inr ws)
    show ?thesis
    proof (cases "loc values (selected best)")
      case (Inl e)
      then obtain k where "e = KeyError k" by (auto dest: loc_error)
      with Inl w n b show ?thesis
        by (simp add: knapsack_parse_def)
    next
      case (Inr vs)
      with w n b show ?thesis
        by (simp add: knapsack_parse_def)
    qed
  qed
qed

lemma knapsack_parse_best:
  assumes "filter is_feasible sampleset \<noteq> []"
    and "rows_in_range (length values) sampleset"
    and "rows_in_range (length weights) sampleset"
  shows "\<exists>best \<in> set sampleset. is_feasible best
      \<and> (\<forall>r \<in> set sampleset. is_feasible r \<longrightarrow> row_energy best \<le> row_energy r)
      \<and> knapsack_parse values weights sampleset =
          Inr \<lparr>total_value = (\<Sum>k \<leftarrow> selected best. values ! k),
               total_weight = (\<Sum>k \<leftarrow> selected best. weights ! k),
               selected_items = selected best,
               best_solution_energy = row_energy best\<rparr>"
proof -
  from first_lowest[OF assms(1)] obtain best where
    b: "best \<in> set (filter is_feasible sampleset)"
      "first (filter is_feasible sampleset) = Inr best"
      "\<forall>r \<in> set (filter is_feasible sampleset). row_energy best \<le> row_energy r"
    by blast
  from b(1) have m: "best \<in> set sampleset" "is_feasible best" by simp_all
  have "list_all (\<lambda>(key, val). key < length values) (row_sample best)"
    using assms(2) m(1) by (simp add: rows_in_range_def list_all_iff)
  then have "list_all (\<lambda>k. k < length values) (selected best)"
    by (rule selected_in_range)
  then have v: "loc values (selected best) = Inr (map (\<lambda>k. values ! k) (selected best))"
    by (rule loc_in_range)
  have "list_all (\<lambda>(key, val). key < length weights) (row_sample best)"
    using assms(3) m(1) by (simp add: rows_in_range_def list_all_iff)
  then have "list_all (\<lambda>k. k < length weights) (selected best)"
    by (rule selected_in_range)
  then have w: "loc weights (selected best) = Inr (map (\<lambda>k. weights ! k) (selected best))"
    by (rule loc_in_range)
  have "knapsack_parse values weights sampleset =
          Inr \<lparr>total_value = (\<Sum>k \<leftarrow> selected best. values ! k),
               total_weight = (\<Sum>k \<leftarrow> selected best. weights ! k),
               selected_items = selected best,
               best_solution_energy = row_energy best\<rparr>"
    using assms(1) b(2) v w by (simp add: knapsack_parse_def)
  moreover have "\<forall>r \<in> set sampleset. is_feasible r \<longrightarrow> row_energy best \<le> row_energy r"
    using b(3) by simp
  ultimately show ?thesis
    using m by blast
qed


text \<open>
  C6. The knapsack interpreter restricts the sample set to the rows flagged feasible. It
  fails with \<^verbatim>\<open>ValueError("No feasible solution found")\<close> if and only if no row is feasible.
  When some row is feasible (and the rows only name items that exist) it picks a feasible row
  whose energy is least among the feasible rows and returns the items that row sets to 1
  with their total weight and total value. The sampler is called once: the result of
  \<^verbatim>\<open>knapsack_dwave\<close> is the interpretation of that one sample set.
\<close>

theorem knapsack_no_feasible_solution:
  "(knapsack_parse values weights sampleset = Inl (ValueError ''No feasible solution found'')
      \<longleftrightarrow> filter is_feasible sampleset = [])
   \<and> (filter is_feasible sampleset \<noteq> [] \<and> rows_in_range (length values) sampleset
        \<and> rows_in_range (length weights) sampleset \<longrightarrow>
      (\<exists>best \<in> set sampleset. is_feasible best
        \<and> (\<forall>r \<in> set sampleset. is_feasible r \<longrightarrow> row_energy best \<le> row_energy r)
        \<and> knapsack_parse values weights sampleset =
            Inr \<lparr>total_value = (\<Sum>k \<leftarrow> selected best. values ! k),
                 total_weight = (\<Sum>k \<leftarrow> selected best. weights ! k),
                 selected_items = selected best,
                 best_solution_energy = row_energy best\<rparr>))
   \<and> (length values \<le> length weights \<longrightarrow>
      (\<exists>model. knapsack_cqm values weights max_weight = Inr model
        \<and> knapsack_dwave sample_cqm values weights max_weight =
            knapsack_parse values weights (sample_cqm model)))"
proof (intro conjI impI)
  show "knapsack_parse values weights sampleset = Inl (ValueError ''No feasible solution found'')
      \<longleftrightarrow> filter is_feasible sampleset = []"
    using knapsack_parse_empty knapsack_parse_nonempty by blast
next
  assume "filter is_feasible sampleset \<noteq> [] \<and> rows_in_range (length values) sampleset
        \<and> rows_in_range (length weights) sampleset"
  then show "\<exists>best \<in> set sampleset. is_feasible best
        \<and> (\<forall>r \<in> set sampleset. is_feasible r \<longrightarrow> row_energy best \<le> row_energy r)
        \<and> knapsack_parse values weights sampleset =
            Inr \<lparr>total_value = (\<Sum>k \<leftarrow> selected best. values ! k),
                 total_weight = (\<Sum>k \<leftarrow> selected best. weights ! k),
                 selected_items = selected best,
                 best_solution_energy = row_energy best\<rparr>"
    using knapsack_parse_best by blast
next
  assume "length values \<le> length weights"
  then show "\<exists>model. knapsack_cqm values weights max_weight = Inr model
        \<and> knapsack_dwave sample_cqm values weights max_weight =
            knapsack_parse values weights (sample_cqm model)"
    by (simp add: knapsack_cqm_eq knapsack_dwave_def)
qed

theorem knapsack_no_feasible_solution_witness:
  "knapsack_parse example_values example_weights infeasible_sampleset =
      Inl (ValueError ''No feasible solution found'')
   \<and> knapsack_parse example_values example_weights example_sampleset =
      Inr \<lparr>total_value = 14, total_weight = 8, selected_items = [0, 2],
           best_solution_energy = - 14\<rparr>"
proof -
  note t = knapsack_no_feasible_solution [of example_values example_weights]
  have "filter is_feasible infeasible_sampleset = []"
    by (simp add: infeasible_sampleset_def)
  with t[of infeasible_sampleset]
  have a: "knapsack_parse example_values example_weights infeasible_sampleset =
      Inl (ValueError ''No feasible solution found'')"
    by blast
  have "filter is_feasible example_sampleset \<noteq> []"
    "rows_in_range (length example_values) example_sampleset"
    "rows_in_range (length example_weights) example_sampleset"
    by (simp_all add: example_sampleset_def rows_in_range_def example_values_def
        example_weights_def)
  with t[of example_sampleset] obtain best where
    b: "best \<in> set example_sampleset" "is_feasible best"
      "\<forall>r \<in> set example_sampleset. is_feasible r \<longrightarrow> row_energy best \<le> row_energy r"
    and r: "knapsack_parse example_values example_weights example_sampleset =
        Inr \<lparr>total_value = (\<Sum>k \<leftarrow> selected best. example_values ! k),
             total_weight = (\<Sum>k \<leftarrow> selected best. example_weights ! k),
             selected_items = selected best,
             best_solution_energy = row_energy best\<rparr>"
    by blast
  from b have "best = \<lparr>row_sample = [(0, 1), (1, 0), (2, 1)], row_energy = - 14, is_feasible = True\<rparr>"
    by (auto simp: example_sampleset_def)
  with r have "knapsack_parse example_values example_weights example_sampleset =
      Inr \<lparr>total_value = 14, total_weight = 8, selected_items = [0, 2],
           best_solution_energy = - 14\<rparr>"
    by (simp add: selected_def example_values_def example_weights_def)
  with a show ?thesis by simp
qed

section \<open>Accumulation of coefficients and the keys of the partition dictionary\<close>

lemma getitem_accumulate:
  "getitem (accumulate Q ts) k = getitem Q k + sum_list (map snd (filter (\<lambda>t. fst t = k) ts))"
  by (induction Q ts rule: accumulate.induct) (auto simp: getitem_iadd)

lemma set_keys_accumulate: "set (keys (accumulate Q ts)) = set (keys Q) \<union> fst ` set ts"
  by (induction Q ts rule: accumulate.induct) (auto simp: set_keys_iadd)

lemma distinct_accumulate: "distinct (keys Q) \<Longrightarrow> distinct (keys (accumulate Q ts))"
  by (induction Q ts rule: accumulate.induct) (simp_all add: distinct_iadd)

lemma accumulate_append: "accumulate Q (ts @ ts') = accumulate (accumulate Q ts) ts'"
  by (induction Q ts rule: accumulate.induct) simp_all

lemma partition_objective_accumulate:
  "partition_objective Q es =
     accumulate Q (concat (map (\<lambda>(u, v). [((u, u), 1), ((v, v), 1), ((u, v), - 2)]) es))"
  by (induction Q es rule: partition_objective.induct) simp_all

lemma partition_linear_accumulate:
  "partition_linear Q gamma n ns = accumulate Q (map (\<lambda>i. ((i, i), gamma * (1 - int n))) ns)"
  by (induction Q gamma n ns rule: partition_linear.induct) simp_all

lemma partition_quadratic_accumulate:
  "partition_quadratic Q gamma ps = accumulate Q (map (\<lambda>p. (p, 2 * gamma)) ps)"
  by (induction Q gamma ps rule: partition_quadratic.induct) simp_all

lemma partition_Q_accumulate:
  "partition_Q nodes edges gamma = accumulate [] (partition_terms nodes edges gamma)"
  by (simp add: partition_Q_def partition_terms_def accumulate_append
      partition_objective_accumulate partition_linear_accumulate partition_quadratic_accumulate)

lemma sum_filter_mset:
  assumes "mset ts = mset ts'"
  shows "sum_list (map snd (filter P ts)) = (sum_list (map snd (filter P ts')) :: int)"
proof -
  have "mset (filter P ts) = mset (filter P ts')"
    using assms by (simp only: mset_filter)
  then have "image_mset snd (mset (filter P ts)) = image_mset snd (mset (filter P ts'))"
    by (rule arg_cong)
  then have "mset (map snd (filter P ts)) = mset (map snd (filter P ts'))"
    by (simp only: mset_map)
  then have "sum_mset (mset (map snd (filter P ts))) = sum_mset (mset (map snd (filter P ts')))"
    by simp
  then show ?thesis
    by (simp only: sum_mset_sum_list)
qed

lemma accumulate_permuted:
  assumes "mset ts = mset ts'"
  shows "map_of (accumulate Q ts) = map_of (accumulate Q ts')"
proof
  fix k
  have s: "set ts = set ts'"
    using assms by (rule mset_eq_setD)
  show "map_of (accumulate Q ts) k = map_of (accumulate Q ts') k"
    unfolding map_of_getitem set_keys_accumulate getitem_accumulate s
    using sum_filter_mset[OF assms, of "\<lambda>t. fst t = k"] by simp
qed

lemma partition_terms_permuted:
  assumes "mset edges = mset edges'"
  shows "mset (partition_terms nodes edges gamma) = mset (partition_terms nodes edges' gamma)"
proof -
  have "mset (concat (map f edges)) = mset (concat (map f edges'))" for f :: "nat \<times> nat \<Rightarrow> (key \<times> int) list"
  proof -
    have "mset (concat (map f edges)) = (\<Sum>e \<in># mset edges. mset (f e))"
      by (induction edges) simp_all
    moreover have "mset (concat (map f edges')) = (\<Sum>e \<in># mset edges'. mset (f e))"
      by (induction edges') simp_all
    ultimately show ?thesis using assms by simp
  qed
  then show ?thesis
    by (simp add: partition_terms_def)
qed


lemma combinations2_members:
  "(i, j) \<in> set (combinations2 xs) \<Longrightarrow> i \<in> set xs \<and> j \<in> set xs"
  by (induction xs) auto

lemma distinct_combinations2: "distinct xs \<Longrightarrow> distinct (combinations2 xs)"
proof (induction xs)
  case Nil
  show ?case by simp
next
  case (Cons a xs)
  have "distinct (map (Pair a) xs)"
    using Cons.prems by (simp add: distinct_map inj_on_def)
  moreover have "set (map (Pair a) xs) \<inter> set (combinations2 xs) = {}"
    using Cons.prems by (auto dest: combinations2_members)
  ultimately show ?case
    using Cons by simp
qed

lemma set_combinations2_upt:
  "set (combinations2 [a..<b]) = {(i, j). a \<le> i \<and> i < j \<and> j < b}"
proof (induction "b - a" arbitrary: a)
  case 0
  then show ?case by auto
next
  case (Suc d)
  then have lt: "a < b" and d: "d = b - Suc a" by simp_all
  have "set (combinations2 [a..<b]) = Pair a ` {Suc a..<b} \<union> set (combinations2 [Suc a..<b])"
    using lt by (simp add: upt_conv_Cons)
  also have "\<dots> = Pair a ` {Suc a..<b} \<union> {(i, j). Suc a \<le> i \<and> i < j \<and> j < b}"
    using Suc.hyps(1)[OF d] by simp
  also have "Pair a ` {Suc a..<b} = {(i, j). i = a \<and> a < j \<and> j < b}"
    by (auto simp: image_iff)
  also have "{(i, j). i = a \<and> a < j \<and> j < b} \<union> {(i, j). Suc a \<le> i \<and> i < j \<and> j < b}
      = {(i, j). a \<le> i \<and> i < j \<and> j < b}"
    by (auto simp: le_eq_less_or_eq)
  finally show ?case .
qed

lemma count_list_distinct: "distinct xs \<Longrightarrow> x \<in> set xs \<Longrightarrow> count_list xs x = 1"
  by (induction xs) auto

lemma count_list_absent: "x \<notin> set xs \<Longrightarrow> count_list xs x = 0"
  by (induction xs) auto

lemma edge_terms_sum:
  "sum_list (map snd (filter (\<lambda>t. fst t = k)
      (concat (map (\<lambda>(u, v). [((u, u), 1), ((v, v), 1), ((u, v), - 2 :: int)]) edges))))
    = (\<Sum>(u, v) \<leftarrow> edges. (if k = (u, u) then 1 else 0) + (if k = (v, v) then 1 else 0)
         + (if k = (u, v) then - 2 else 0))"
proof (induction edges)
  case Nil
  show ?case by simp
next
  case (Cons e es)
  let ?F = "\<lambda>(u, v). [((u, u), 1), ((v, v), 1), ((u, v), - 2 :: int)]"
  obtain u v where e: "e = (u, v)" by (cases e)
  have single: "sum_list (map snd (filter (\<lambda>t. fst t = k) [((u, u), 1), ((v, v), 1), ((u, v), - 2)]))
      = (if k = (u, u) then 1 else 0) + (if k = (v, v) then 1 else 0)
         + (if k = (u, v) then - 2 else (0::int))"
    by simp
  have c: "concat (map ?F (e # es)) = [((u, u), 1), ((v, v), 1), ((u, v), - 2)] @ concat (map ?F es)"
    using e by simp
  show ?case
    unfolding c filter_append map_append sum_list_append Cons.IH single
    using e by simp
qed

lemma edge_terms_offdiag:
  assumes "list_all (\<lambda>(u, v). u < v) edges" and "a \<noteq> b"
  shows "sum_list (map snd (filter (\<lambda>t. fst t = (a, b))
      (concat (map (\<lambda>(u, v). [((u, u), 1), ((v, v), 1), ((u, v), - 2)]) edges))))
    = - 2 * int (count_list edges (a, b))"
  unfolding edge_terms_sum
  using assms by (induction edges) (auto split: if_splits)

lemma edge_terms_diag:
  assumes "list_all (\<lambda>(u, v). u < v) edges"
  shows "sum_list (map snd (filter (\<lambda>t. fst t = (i, i))
      (concat (map (\<lambda>(u, v). [((u, u), 1), ((v, v), 1), ((u, v), - 2)]) edges))))
    = int (degree edges i)"
  unfolding edge_terms_sum
  using assms by (induction edges) (auto simp: degree_def split: if_splits)

lemma linear_terms:
  "sum_list (map snd (filter (\<lambda>t. fst t = (a, b)) (map (\<lambda>i. ((i, i), c)) ns)))
    = (if a = b then c * int (count_list ns a) else 0)"
  by (induction ns) (auto simp: algebra_simps)

lemma quadratic_terms:
  "sum_list (map snd (filter (\<lambda>t. fst t = k) (map (\<lambda>p. (p, c)) ps))) = c * int (count_list ps k)"
  by (induction ps) (auto simp: algebra_simps)

lemma getitem_partition_Q_offdiag:
  assumes "list_all (\<lambda>(u, v). u < v) edges" and "a \<noteq> b"
  shows "getitem (partition_Q nodes edges gamma) (a, b) =
     2 * gamma * int (count_list (combinations2 nodes) (a, b)) - 2 * int (count_list edges (a, b))"
  using assms
  by (simp add: partition_Q_accumulate getitem_accumulate partition_terms_def
      edge_terms_offdiag linear_terms quadratic_terms)

lemma getitem_partition_Q_diag:
  assumes "list_all (\<lambda>(u, v). u < v) edges"
  shows "getitem (partition_Q nodes edges gamma) (i, i) =
     int (degree edges i) + gamma * (1 - int (length nodes)) * int (count_list nodes i)
     + 2 * gamma * int (count_list (combinations2 nodes) (i, i))"
  using assms
  by (simp add: partition_Q_accumulate getitem_accumulate partition_terms_def
      edge_terms_diag linear_terms quadratic_terms)

lemma gnp_graph_ordered: "gnp_graph n edges \<Longrightarrow> list_all (\<lambda>(u, v). u < v) edges"
  by (auto simp: gnp_graph_def list_all_iff)

lemma partition_Q_edge:
  assumes "gnp_graph n edges" and "(u, v) \<in> set edges"
  shows "getitem (partition_Q [0..<n] edges gamma) (u, v) = - 2 + 2 * gamma"
proof -
  from assms have uv: "u < v" "v < n" and d: "distinct edges"
    by (auto simp: gnp_graph_def list_all_iff)
  have "(u, v) \<in> set (combinations2 [0..<n])"
    using uv by (simp add: set_combinations2_upt)
  then have c: "count_list (combinations2 [0..<n]) (u, v) = 1"
    by (simp add: count_list_distinct distinct_combinations2)
  have e: "count_list edges (u, v) = 1"
    using d assms(2) by (rule count_list_distinct)
  show ?thesis
    using getitem_partition_Q_offdiag[OF gnp_graph_ordered[OF assms(1)], of u v "[0..<n]" gamma] uv c e
    by simp
qed

lemma partition_Q_node:
  assumes "gnp_graph n edges" and "i < n"
  shows "getitem (partition_Q [0..<n] edges gamma) (i, i) =
     int (degree edges i) + gamma * (1 - int n)"
proof -
  have c: "count_list (combinations2 [0..<n]) (i, i) = 0"
    by (rule count_list_absent) (simp add: set_combinations2_upt)
  have k: "count_list [0..<n] i = 1"
    using assms(2) by (simp add: count_list_distinct)
  show ?thesis
    using getitem_partition_Q_diag[OF gnp_graph_ordered[OF assms(1)], of "[0..<n]" gamma i] c k
    by simp
qed

lemma toy_Q_accumulate:
  "toy_Q A = accumulate [] [((1, 1), 1 - A), ((2, 2), 1 - A), ((3, 3), 1), ((1, 2), 2 * A)]"
  by (simp add: toy_Q_def iadd_def)

lemma getting_started_Q_accumulate:
  "getting_started_Q = accumulate []
     [((1, 1), - 2), ((2, 2), - 2), ((1, 2), 2), ((3, 3), - 3), ((1, 3), 2), ((4, 4), - 3),
      ((2, 4), 2), ((3, 4), 2), ((5, 5), - 2), ((3, 5), 2), ((4, 5), 2)]"
  by (simp add: getting_started_Q_def iadd_def)

lemma keys_partition_Q:
  "set (keys (partition_Q nodes edges gamma)) = fst ` set (partition_terms nodes edges gamma)"
  unfolding partition_Q_accumulate set_keys_accumulate by (simp add: keys_def)

lemma partition_Q_edges_permuted:
  "mset es = mset es' \<Longrightarrow>
     map_of (partition_Q nodes es gamma) = map_of (partition_Q nodes es' gamma)"
  unfolding partition_Q_accumulate
  by (rule accumulate_permuted) (rule partition_terms_permuted)

text \<open>
  C8. Adding a term to a pair sums it onto the entry of that pair and leaves every other
  entry as it was; a pair that is not a key reads as 0; and the final dictionary does not
  depend on the order in which the terms are added (the terms of the graph-partition cell, or
  its edges, in any order give the same dictionary). The dictionaries written by plain
  assignment assign each key once, so they are the accumulation of their terms too.
  Concretely, for the graph-partition encoder on a graph with nodes \<open>0..n-1\<close> and each edge
  listed once, smaller endpoint first, the coefficient of every edge \<open>(u, v)\<close> ends as
  \<open>-2 + 2 * gamma\<close> and that of every node \<open>i\<close> as \<open>degree i + gamma * (1 - n)\<close>.
\<close>

theorem coefficients_accumulate:
  assumes "gnp_graph n edges"
  shows "getitem (iadd Q k c) k = getitem Q k + c
    \<and> (k' \<noteq> k \<longrightarrow> getitem (iadd Q k c) k' = getitem Q k')
    \<and> (k \<notin> set (keys Q) \<longrightarrow> getitem Q k = 0)
    \<and> (mset ts = mset ts' \<longrightarrow> map_of (accumulate Q ts) = map_of (accumulate Q ts'))
    \<and> partition_Q nodes es gamma = accumulate [] (partition_terms nodes es gamma)
    \<and> (mset es = mset es' \<longrightarrow>
          map_of (partition_Q nodes es gamma) = map_of (partition_Q nodes es' gamma))
    \<and> toy_Q A = accumulate [] [((1, 1), 1 - A), ((2, 2), 1 - A), ((3, 3), 1), ((1, 2), 2 * A)]
    \<and> (\<forall>(u, v) \<in> set edges. getitem (partition_Q [0..<n] edges gamma) (u, v) = - 2 + 2 * gamma)
    \<and> (\<forall>i < n. getitem (partition_Q [0..<n] edges gamma) (i, i)
          = int (degree edges i) + gamma * (1 - int n))"
proof -
  have e: "\<forall>(u, v) \<in> set edges. getitem (partition_Q [0..<n] edges gamma) (u, v) = - 2 + 2 * gamma"
    using partition_Q_edge[OF assms] by blast
  have d: "\<forall>i < n. getitem (partition_Q [0..<n] edges gamma) (i, i)
          = int (degree edges i) + gamma * (1 - int n)"
    using partition_Q_node[OF assms] by blast
  have a: "getitem (iadd Q k c) k = getitem Q k + c"
    "k' \<noteq> k \<longrightarrow> getitem (iadd Q k c) k' = getitem Q k'"
    "k \<notin> set (keys Q) \<longrightarrow> getitem Q k = 0"
    by (simp_all add: getitem_iadd getitem_absent)
  have p: "mset ts = mset ts' \<longrightarrow> map_of (accumulate Q ts) = map_of (accumulate Q ts')"
    "mset es = mset es' \<longrightarrow>
          map_of (partition_Q nodes es gamma) = map_of (partition_Q nodes es' gamma)"
    using accumulate_permuted[of ts ts' Q] partition_Q_edges_permuted[of es es' nodes gamma]
    by blast+
  from a p e d partition_Q_accumulate[of nodes es gamma] toy_Q_accumulate[of A]
  show ?thesis
    by blast
qed

lemma gnp_example: "gnp_graph 4 example_edges"
  by (simp add: gnp_graph_def example_edges_def)

theorem coefficients_accumulate_witness:
  "gnp_graph 4 example_edges
    \<and> getitem (partition_Q [0..<4] example_edges 80) (0, 1) = 158
    \<and> getitem (partition_Q [0..<4] example_edges 80) (1, 3) = 158
    \<and> getitem (partition_Q [0..<4] example_edges 80) (1, 1) = - 238
    \<and> getitem (partition_Q [0..<4] example_edges 80) (2, 2) = - 240"
proof -
  note t = coefficients_accumulate [OF gnp_example, where gamma = 80]
  from t have e: "\<forall>(u, v) \<in> set example_edges.
      getitem (partition_Q [0..<4] example_edges 80) (u, v) = - 2 + 2 * 80"
    by blast
  from t have d: "\<forall>i < 4. getitem (partition_Q [0..<4] example_edges 80) (i, i)
      = int (degree example_edges i) + 80 * (1 - int 4)"
    by blast
  have "degree example_edges 1 = 2" "degree example_edges 2 = 0"
    by (simp_all add: degree_def example_edges_def)
  with d have "getitem (partition_Q [0..<4] example_edges 80) (1, 1) = - 238"
    "getitem (partition_Q [0..<4] example_edges 80) (2, 2) = - 240"
    by auto
  moreover from e have "getitem (partition_Q [0..<4] example_edges 80) (0, 1) = 158"
    "getitem (partition_Q [0..<4] example_edges 80) (1, 3) = 158"
    by (auto simp: example_edges_def)
  ultimately show ?thesis
    using gnp_example by blast
qed

text \<open>
  C10. For the graph-partition encoder on the nodes \<open>0..n-1\<close> in increasing order and edges
  listed smaller endpoint first, every off-diagonal key \<open>(i, j)\<close> of the dictionary has
  \<open>i < j\<close>, no key occurs twice, and each pair of distinct nodes \<open>i < j\<close> occurs under the
  key \<open>(i, j)\<close> and not under \<open>(j, i)\<close>: the objective contribution of an edge and the
  penalty contribution of its pair are summed in that one entry, \<open>2 * gamma\<close> less 2 for each
  listing of the edge.
\<close>

theorem partition_keys_ordered:
  assumes "list_all (\<lambda>(u, v). u < v) edges"
  shows "(\<forall>(i, j) \<in> set (keys (partition_Q [0..<n] edges gamma)). i \<noteq> j \<longrightarrow> i < j)
    \<and> distinct (keys (partition_Q [0..<n] edges gamma))
    \<and> (\<forall>i j. i < j \<and> j < n \<longrightarrow>
          (i, j) \<in> set (keys (partition_Q [0..<n] edges gamma))
          \<and> (j, i) \<notin> set (keys (partition_Q [0..<n] edges gamma))
          \<and> getitem (partition_Q [0..<n] edges gamma) (i, j)
              = 2 * gamma - 2 * int (count_list edges (i, j)))
    \<and> (\<forall>(u, v) \<in> set edges. (v, u) \<notin> set (keys (partition_Q [0..<n] edges gamma)))"
proof -
  let ?Q = "partition_Q [0..<n] edges gamma"
  have ord: "i \<le> j" if "(i, j) \<in> set (keys ?Q)" for i j
    using that assms
    by (auto simp: keys_partition_Q partition_terms_def set_combinations2_upt list_all_iff)
  have a: "\<forall>(i, j) \<in> set (keys ?Q). i \<noteq> j \<longrightarrow> i < j"
    using ord by fastforce
  have b: "distinct (keys ?Q)"
    unfolding partition_Q_accumulate by (rule distinct_accumulate) (simp add: keys_def)
  have c: "(i, j) \<in> set (keys ?Q) \<and> (j, i) \<notin> set (keys ?Q)
      \<and> getitem ?Q (i, j) = 2 * gamma - 2 * int (count_list edges (i, j))"
    if "i < j" "j < n" for i j
  proof -
    have m: "(i, j) \<in> set (combinations2 [0..<n])"
      using that by (simp add: set_combinations2_upt)
    then have "(i, j) \<in> set (keys ?Q)"
      by (force simp: keys_partition_Q partition_terms_def)
    moreover have "(j, i) \<notin> set (keys ?Q)"
      using ord[of j i] that by auto
    moreover have "count_list (combinations2 [0..<n]) (i, j) = 1"
      using m by (simp add: count_list_distinct distinct_combinations2)
    then have "getitem ?Q (i, j) = 2 * gamma - 2 * int (count_list edges (i, j))"
      using getitem_partition_Q_offdiag[OF assms, of i j "[0..<n]" gamma] that by simp
    ultimately show ?thesis by simp
  qed
  have d: "\<forall>(u, v) \<in> set edges. (v, u) \<notin> set (keys ?Q)"
  proof -
    have "(v, u) \<notin> set (keys ?Q)" if "(u, v) \<in> set edges" for u v
    proof -
      from that assms have "u < v" by (auto simp: list_all_iff)
      with ord[of v u] show ?thesis by auto
    qed
    then show ?thesis by blast
  qed
  from a b c d show ?thesis by blast
qed

theorem partition_keys_ordered_witness:
  "list_all (\<lambda>(u, v). u < v) example_edges
    \<and> distinct (keys (partition_Q [0..<4] example_edges 80))
    \<and> (0, 1) \<in> set (keys (partition_Q [0..<4] example_edges 80))
    \<and> (1, 0) \<notin> set (keys (partition_Q [0..<4] example_edges 80))
    \<and> getitem (partition_Q [0..<4] example_edges 80) (0, 1) = 158
    \<and> getitem (partition_Q [0..<4] example_edges 80) (0, 2) = 160"
proof -
  have h: "list_all (\<lambda>(u, v). u < v) example_edges"
    by (simp add: example_edges_def)
  note t = partition_keys_ordered [OF h, of 4 80]
  from t have d: "distinct (keys (partition_Q [0..<4] example_edges 80))"
    by blast
  from t have c: "\<forall>i j. i < j \<and> j < 4 \<longrightarrow>
          (i, j) \<in> set (keys (partition_Q [0..<4] example_edges 80))
          \<and> (j, i) \<notin> set (keys (partition_Q [0..<4] example_edges 80))
          \<and> getitem (partition_Q [0..<4] example_edges 80) (i, j)
              = 2 * 80 - 2 * int (count_list example_edges (i, j))"
    by blast
  have "(0::nat) < 1 \<and> (1::nat) < 4" "(0::nat) < 2 \<and> (2::nat) < 4"
    by simp_all
  with c have "(0, 1) \<in> set (keys (partition_Q [0..<4] example_edges 80))"
    "(1, 0) \<notin> set (keys (partition_Q [0..<4] example_edges 80))"
    "getitem (partition_Q [0..<4] example_edges 80) (0, 1)
       = 2 * 80 - 2 * int (count_list example_edges (0, 1))"
    "getitem (partition_Q [0..<4] example_edges 80) (0, 2)
       = 2 * 80 - 2 * int (count_list example_edges (0, 2))"
    by blast+
  then show ?thesis
    using h d by (simp add: example_edges_def)
qed

end
